theory Spec2Isabelle
  imports Main "HOL-Library.AList" "HOL-Library.Product_Lexorder"
begin

section \<open>Data model\<close>

text \<open>
  A task is the tuple \<open>(t_id, duration, preds)\<close> that \<open>read_constraints_from_file\<close>
  builds; Python integers are unbounded, hence \<open>int\<close>. A dictionary is an association
  list in insertion order with distinct keys: \<open>AList.update\<close> overwrites an existing key in place
  and appends a new one, as a Python \<open>dict\<close> does. A matrix cell holds either the
  string \<open>"*"\<close> (no arc, \<open>None\<close> here) or an integer weight.
\<close>

datatype error = KeyError | IndexError | ValueError

type_synonym task = "int \<times> int \<times> int list"

type_synonym dict = "(int \<times> int) list"

type_synonym cell = "int option"

type_synonym matrix = "cell list list"

definition id_of :: "task \<Rightarrow> int" where
  "id_of t = fst t"

definition dur_of :: "task \<Rightarrow> int" where
  "dur_of t = fst (snd t)"

definition preds_of :: "task \<Rightarrow> int list" where
  "preds_of t = snd (snd t)"

section \<open>Python primitives\<close>

text \<open>\<open>d[k]\<close>: raises KeyError when the key is absent.\<close>

definition dict_get :: "dict \<Rightarrow> int \<Rightarrow> error + int" where
  "dict_get d k = (case map_of d k of None \<Rightarrow> Inl KeyError | Some v \<Rightarrow> Inr v)"

text \<open>\<open>max(...)\<close> and \<open>min(...)\<close> of a sequence: ValueError when it is empty.\<close>

definition py_max :: "int list \<Rightarrow> error + int" where
  "py_max xs = (if xs = [] then Inl ValueError else Inr (Max (set xs)))"

definition py_min :: "int list \<Rightarrow> error + int" where
  "py_min xs = (if xs = [] then Inl ValueError else Inr (Min (set xs)))"

text \<open>A \<open>for\<close> loop whose body may raise: the first error ends the loop.\<close>

fun fold_err :: "('a \<Rightarrow> 's \<Rightarrow> error + 's) \<Rightarrow> 'a list \<Rightarrow> 's \<Rightarrow> error + 's" where
  "fold_err f [] s = Inr s"
| "fold_err f (x # xs) s = (case f x s of Inl e \<Rightarrow> Inl e | Inr s' \<Rightarrow> fold_err f xs s')"

text \<open>A generator expression \<open>(f(x) for x in xs)\<close> consumed in order.\<close>

fun traverse :: "('a \<Rightarrow> error + 'b) \<Rightarrow> 'a list \<Rightarrow> error + 'b list" where
  "traverse f [] = Inr []"
| "traverse f (x # xs) =
     (case f x of Inl e \<Rightarrow> Inl e
      | Inr y \<Rightarrow> (case traverse f xs of Inl e \<Rightarrow> Inl e | Inr ys \<Rightarrow> Inr (y # ys)))"

text \<open>
  List indexing with a Python integer: an index in \<open>[0, n)\<close> is itself, one in
  \<open>[-n, 0)\<close> counts from the end, anything else raises IndexError.
\<close>

definition py_index :: "int \<Rightarrow> nat \<Rightarrow> nat option" where
  "py_index i n =
     (if 0 \<le> i \<and> i < int n then Some (nat i)
      else if - int n \<le> i \<and> i < 0 then Some (nat (i + int n))
      else None)"

text \<open>\<open>matrix[i][j] = v\<close>\<close>

definition set_cell :: "matrix \<Rightarrow> int \<Rightarrow> int \<Rightarrow> cell \<Rightarrow> error + matrix" where
  "set_cell m i j v =
     (case py_index i (length m) of
        None \<Rightarrow> Inl IndexError
      | Some r \<Rightarrow>
          (case py_index j (length (m ! r)) of
             None \<Rightarrow> Inl IndexError
           | Some c \<Rightarrow> Inr (m[r := (m ! r)[c := v]])))"

text \<open>\<open>matrix[i][j]\<close> for indices taken from \<open>range(n)\<close>\<close>

definition get_cell :: "matrix \<Rightarrow> nat \<Rightarrow> nat \<Rightarrow> error + cell" where
  "get_cell m i j =
     (if i < length m
      then (if j < length (m ! i) then Inr (m ! i ! j) else Inl IndexError)
      else Inl IndexError)"

section \<open>Counting vertices and arcs\<close>

definition count_vertices :: "task list \<Rightarrow> int" where
  "count_vertices tasks = int (length tasks) + 2"

text \<open>
  The first loop of \<open>count_arcs\<close>, with its three variables \<open>arcs\<close>, \<open>all_tasks\<close>
  and \<open>has_preds\<close> as the state.
\<close>

fun count_arcs_step :: "task \<Rightarrow> int \<times> int set \<times> int set \<Rightarrow> int \<times> int set \<times> int set" where
  "count_arcs_step (t_id, dur, preds) (arcs, all_tasks, has_preds) =
     (if preds \<noteq> []
      then (arcs + int (length preds), insert t_id all_tasks, has_preds \<union> set preds)
      else (arcs + 1, insert t_id all_tasks, has_preds))"

fun add_preds :: "task \<Rightarrow> int set \<Rightarrow> int set" where
  "add_preds (t_id, dur, preds) s = fold insert preds s"

definition count_arcs :: "task list \<Rightarrow> int" where
  "count_arcs tasks =
     (case fold count_arcs_step tasks (0, {}, {}) of
        (arcs, all_tasks, has_preds) \<Rightarrow>
          let tasks_with_succ = fold add_preds tasks {};
              tasks_no_succ = all_tasks - tasks_with_succ
          in arcs + int (card tasks_no_succ))"

section \<open>Adjacency matrix\<close>

text \<open>\<open>next((d for (tid, d, _) in tasks if tid == p), None)\<close>\<close>

fun pred_duration :: "int \<Rightarrow> task list \<Rightarrow> int option" where
  "pred_duration p [] = None"
| "pred_duration p ((tid, d, ps) # ts) = (if tid = p then Some d else pred_duration p ts)"

text \<open>The inner loop over the predecessors of one task: an unknown predecessor is skipped.\<close>

definition place_pred :: "task list \<Rightarrow> int \<Rightarrow> int \<Rightarrow> matrix \<Rightarrow> error + matrix" where
  "place_pred tasks t_id p m =
     (case pred_duration p tasks of
        None \<Rightarrow> Inr m
      | Some d \<Rightarrow> set_cell m p t_id (Some d))"

fun place_task :: "task list \<Rightarrow> task \<Rightarrow> matrix \<Rightarrow> error + matrix" where
  "place_task tasks (t_id, dur, preds) m =
     (if preds = [] then set_cell m 0 t_id (Some 0)
      else fold_err (place_pred tasks t_id) preds m)"

text \<open>
  \<open>no_succ = all_tasks - tasks_with_preds\<close>; the last loop only tests membership of a
  task id, which is in \<open>all_tasks\<close> by construction.
\<close>

definition tasks_with_preds :: "task list \<Rightarrow> int set" where
  "tasks_with_preds tasks = fold add_preds tasks {}"

definition no_succ :: "task list \<Rightarrow> int set" where
  "no_succ tasks = set (map fst tasks) - tasks_with_preds tasks"

fun place_omega :: "task list \<Rightarrow> int \<Rightarrow> task \<Rightarrow> matrix \<Rightarrow> error + matrix" where
  "place_omega tasks omega (t_id, dur, preds) m =
     (if t_id \<in> no_succ tasks then set_cell m t_id omega (Some dur) else Inr m)"

definition matrix_omega :: "task list \<Rightarrow> int" where
  "matrix_omega tasks = (int (length tasks) + 2) - 1"

definition build_adjacency_matrix :: "task list \<Rightarrow> error + matrix" where
  "build_adjacency_matrix tasks =
     (let nb_sommets = length tasks + 2;
          omega = matrix_omega tasks;
          matrix = replicate nb_sommets (replicate nb_sommets None)
      in case fold_err (place_task tasks) tasks matrix of
           Inl e \<Rightarrow> Inl e
         | Inr matrix' \<Rightarrow> fold_err (place_omega tasks omega) tasks matrix')"

section \<open>Validation\<close>

definition has_negative_arcs :: "task list \<Rightarrow> bool" where
  "has_negative_arcs tasks = (\<exists>t \<in> set tasks. dur_of t < 0)"

text \<open>The double loop that fills \<open>in_degree\<close>.\<close>

definition count_arc :: "matrix \<Rightarrow> nat \<Rightarrow> nat \<Rightarrow> int list \<Rightarrow> error + int list" where
  "count_arc m i j in_degree =
     (case get_cell m i j of
        Inl e \<Rightarrow> Inl e
      | Inr None \<Rightarrow> Inr in_degree
      | Inr (Some w) \<Rightarrow>
          (if j < length in_degree then Inr (in_degree[j := in_degree ! j + 1])
           else Inl IndexError))"

definition in_degrees :: "matrix \<Rightarrow> error + int list" where
  "in_degrees m =
     (let n = length m
      in fold_err (\<lambda>i. fold_err (count_arc m i) [0..<n]) [0..<n] (replicate n 0))"

text \<open>The body of \<open>for v in range(n)\<close> inside the \<open>while\<close> loop; the state is
  \<open>(in_degree, queue)\<close>.\<close>

definition relax :: "matrix \<Rightarrow> nat \<Rightarrow> nat \<Rightarrow> int list \<times> nat list \<Rightarrow> error + int list \<times> nat list" where
  "relax m u v s =
     (case s of (in_degree, queue) \<Rightarrow>
        (case get_cell m u v of
           Inl e \<Rightarrow> Inl e
         | Inr None \<Rightarrow> Inr (in_degree, queue)
         | Inr (Some w) \<Rightarrow>
             (if v < length in_degree
              then (let in_degree' = in_degree[v := in_degree ! v - 1]
                    in Inr (in_degree', if in_degree' ! v = 0 then queue @ [v] else queue))
              else Inl IndexError)))"

definition positive :: "int list \<Rightarrow> nat" where
  "positive ds = length (filter (\<lambda>d. 0 < d) ds)"

lemma relax_measure:
  "relax m u v (ds, q) = Inr (ds', q') \<Longrightarrow> length q' + positive ds' = length q + positive ds"
proof -
  have upd: "positive (ds[v := x]) + (if 0 < ds ! v then 1 else 0)
               = positive ds + (if 0 < x then 1 else 0)" if "v < length ds" for x
    using that
  proof (induction ds arbitrary: v)
    case Nil
    then show ?case by simp
  next
    case (Cons d ds)
    then show ?case by (cases v) (auto simp: positive_def)
  qed
  assume r: "relax m u v (ds, q) = Inr (ds', q')"
  show ?thesis
  proof (cases "get_cell m u v")
    case (Inl e)
    with r show ?thesis by (simp add: relax_def)
  next
    case (Inr c)
    show ?thesis
    proof (cases c)
      case None
      with r Inr show ?thesis by (simp add: relax_def)
    next
      case (Some w)
      with r Inr have v: "v < length ds"
        by (simp add: relax_def split: if_splits)
      from r Inr Some v have ds': "ds' = ds[v := ds ! v - 1]"
        and q': "q' = (if ds ! v - 1 = 0 then q @ [v] else q)"
        by (auto simp: relax_def Let_def)
      have one: "ds ! v - 1 = 0 \<longleftrightarrow> ds ! v = 1"
        by arith
      show ?thesis
      proof (cases "ds ! v = 1")
        case True
        with upd [OF v, of 0] show ?thesis
          unfolding ds' q' by simp
      next
        case False
        with upd [OF v, of "ds ! v - 1"] show ?thesis
          unfolding ds' q' one by (auto split: if_splits)
      qed
    qed
  qed
qed

lemma fold_relax_measure:
  "fold_err (relax m u) vs (ds, q) = Inr (ds', q')
     \<Longrightarrow> length q' + positive ds' = length q + positive ds"
proof (induction vs arbitrary: ds q)
  case Nil
  then show ?case by simp
next
  case (Cons v vs)
  then obtain ds1 q1 where s: "relax m u v (ds, q) = Inr (ds1, q1)"
    and r: "fold_err (relax m u) vs (ds1, q1) = Inr (ds', q')"
    by (cases "relax m u v (ds, q)") auto
  from Cons.IH [OF r] relax_measure [OF s] show ?case by simp
qed

text \<open>The \<open>while queue:\<close> loop; it returns \<open>count_visited\<close>.\<close>

function kahn_loop :: "matrix \<Rightarrow> nat \<Rightarrow> nat list \<Rightarrow> int list \<Rightarrow> nat \<Rightarrow> error + nat" where
  "kahn_loop m n [] in_degree count_visited = Inr count_visited"
| "kahn_loop m n (u # queue) in_degree count_visited =
     (case fold_err (relax m u) [0..<n] (in_degree, queue) of
        Inl e \<Rightarrow> Inl e
      | Inr (in_degree', queue') \<Rightarrow> kahn_loop m n queue' in_degree' (count_visited + 1))"
  by pat_completeness auto
termination
proof (relation "measure (\<lambda>(m, n, queue, in_degree, c). length queue + positive in_degree)")
  show "wf (measure (\<lambda>(m, n, queue, in_degree, c). length queue + positive in_degree))"
    by simp
next
  fix m n u queue in_degree count_visited x2 x y
  assume "fold_err (relax m u) [0..<n] (in_degree, queue) = Inr x2" and "(x, y) = x2"
  then have "fold_err (relax m u) [0..<n] (in_degree, queue) = Inr (x, y)"
    by simp
  from fold_relax_measure [OF this]
  show "((m, n, y, x, count_visited + 1), m, n, u # queue, in_degree, count_visited)
          \<in> measure (\<lambda>(m, n, queue, in_degree, c). length queue + positive in_degree)"
    by simp
qed

definition detect_cycle :: "matrix \<Rightarrow> error + bool" where
  "detect_cycle m =
     (let n = length m
      in case in_degrees m of
           Inl e \<Rightarrow> Inl e
         | Inr in_degree \<Rightarrow>
             (case kahn_loop m n [i \<leftarrow> [0..<n]. in_degree ! i = 0] in_degree 0 of
                Inl e \<Rightarrow> Inl e
              | Inr count_visited \<Rightarrow> Inr (count_visited < n)))"

section \<open>Ranks\<close>

text \<open>
  The body of the \<open>for\<close> loop of one relaxation pass; the state is \<open>(ranks, changed)\<close>.
  In the branch without predecessors \<open>ranks[t_id]\<close> is read only when \<open>t_id != 0\<close>.
\<close>

fun rank_step :: "task \<Rightarrow> dict \<times> bool \<Rightarrow> error + dict \<times> bool" where
  "rank_step (t_id, dur, preds) (ranks, changed) =
     (if preds \<noteq> [] then
        (case traverse (dict_get ranks) preds of
           Inl e \<Rightarrow> Inl e
         | Inr rs \<Rightarrow>
             (case py_max rs of
                Inl e \<Rightarrow> Inl e
              | Inr max_pred_rank \<Rightarrow>
                  (let new_rank = max_pred_rank + 1
                   in case dict_get ranks t_id of
                        Inl e \<Rightarrow> Inl e
                      | Inr r \<Rightarrow>
                          (if new_rank > r then Inr (AList.update t_id new_rank ranks, True)
                           else Inr (ranks, changed)))))
      else if t_id \<noteq> 0 then
        (case dict_get ranks t_id of
           Inl e \<Rightarrow> Inl e
         | Inr r \<Rightarrow>
             (if r = 0 then Inr (AList.update t_id 1 ranks, True) else Inr (ranks, changed)))
      else Inr (ranks, changed))"

text \<open>The update of the rank of \<open>omega\<close> that ends a pass.\<close>

definition omega_step :: "int \<Rightarrow> dict \<times> bool \<Rightarrow> error + dict \<times> bool" where
  "omega_step omega s =
     (case s of (ranks, changed) \<Rightarrow>
        (case py_max (map snd (filter (\<lambda>(t, r). t \<noteq> omega) ranks)) of
           Inl e \<Rightarrow> Inl e
         | Inr m \<Rightarrow>
             (let current_omega_rank = m + 1
              in case dict_get ranks omega of
                   Inl e \<Rightarrow> Inl e
                 | Inr r \<Rightarrow>
                     (if current_omega_rank \<noteq> r
                      then Inr (AList.update omega current_omega_rank ranks, True)
                      else Inr (ranks, changed)))))"

text \<open>One iteration of \<open>while changed:\<close>, starting from \<open>changed = False\<close>.\<close>

definition rank_pass :: "task list \<Rightarrow> int \<Rightarrow> dict \<Rightarrow> error + dict \<times> bool" where
  "rank_pass tasks omega ranks =
     (case fold_err rank_step tasks (ranks, False) of
        Inl e \<Rightarrow> Inl e
      | Inr s \<Rightarrow> omega_step omega s)"

text \<open>
  The \<open>while changed:\<close> loop may run forever, so it carries fuel: one unit per pass,
  and \<open>None\<close> when the fuel is used up before a pass leaves \<open>changed\<close> false.
\<close>

fun rank_loop :: "nat \<Rightarrow> task list \<Rightarrow> int \<Rightarrow> dict \<Rightarrow> (error + dict) option" where
  "rank_loop 0 tasks omega ranks = None"
| "rank_loop (Suc fuel) tasks omega ranks =
     (case rank_pass tasks omega ranks of
        Inl e \<Rightarrow> Some (Inl e)
      | Inr (ranks', changed) \<Rightarrow>
          (if changed then rank_loop fuel tasks omega ranks' else Some (Inr ranks')))"

definition init_ranks :: "task list \<Rightarrow> dict" where
  "init_ranks tasks = fold (\<lambda>t ranks. AList.update (fst t) 0 ranks) tasks [(0, 0)]"

definition ranks_omega :: "task list \<Rightarrow> error + int" where
  "ranks_omega tasks =
     (case py_max (map fst (init_ranks tasks)) of Inl e \<Rightarrow> Inl e | Inr m \<Rightarrow> Inr (m + 1))"

definition assign_ranks :: "nat \<Rightarrow> task list \<Rightarrow> (error + dict) option" where
  "assign_ranks fuel tasks =
     (case ranks_omega tasks of
        Inl e \<Rightarrow> Some (Inl e)
      | Inr omega \<Rightarrow>
          (case rank_loop fuel tasks omega (AList.update omega 0 (init_ranks tasks)) of
             None \<Rightarrow> None
           | Some (Inl e) \<Rightarrow> Some (Inl e)
           | Some (Inr ranks) \<Rightarrow> Some (Inr (sort ranks))))"

section \<open>Dates\<close>

fun get_duration :: "int \<Rightarrow> task list \<Rightarrow> int" where
  "get_duration task_id [] = 0"
| "get_duration task_id ((tid, dur, ps) # ts) =
     (if tid = task_id then dur else get_duration task_id ts)"

text \<open>\<open>sorted(tasks, key=lambda x: ranks[x[0]])\<close>: the keys are computed first (a missing
  one raises), then the list is sorted by key, stably.\<close>

definition sorted_by_rank :: "task list \<Rightarrow> dict \<Rightarrow> error + task list" where
  "sorted_by_rank tasks ranks =
     (case traverse (\<lambda>x. dict_get ranks (fst x)) tasks of
        Inl e \<Rightarrow> Inl e
      | Inr ks \<Rightarrow> Inr (map snd (sort_key fst (zip ks tasks))))"

text \<open>The body of the forward loop.\<close>

fun forward_step :: "task list \<Rightarrow> task \<Rightarrow> dict \<Rightarrow> error + dict" where
  "forward_step tasks (t_id, dur, preds) earliest =
     (if preds \<noteq> [] then
        (case traverse (\<lambda>p. case dict_get earliest p of
                               Inl e \<Rightarrow> Inl e
                             | Inr ep \<Rightarrow> Inr (ep + get_duration p tasks)) preds of
           Inl e \<Rightarrow> Inl e
         | Inr xs \<Rightarrow>
             (case py_max xs of
                Inl e \<Rightarrow> Inl e
              | Inr v \<Rightarrow> Inr (AList.update t_id v earliest)))
      else if t_id \<noteq> 0 then
        (case dict_get earliest 0 of
           Inl e \<Rightarrow> Inl e
         | Inr e0 \<Rightarrow> Inr (AList.update t_id e0 earliest))
      else Inr earliest)"

text \<open>
  \<open>no_succ = set(tasks_ids) - tasks_with_succ\<close>, as the list of its elements: Python leaves
  the iteration order of a set open, and the \<open>max\<close> taken over it does not depend on it.
\<close>

definition no_succ_list :: "task list \<Rightarrow> int list" where
  "no_succ_list tasks = remdups (filter (\<lambda>t. t \<in> no_succ tasks) (map fst tasks))"

definition earliest_omega :: "task list \<Rightarrow> dict \<Rightarrow> error + int" where
  "earliest_omega tasks earliest =
     (if no_succ_list tasks \<noteq> [] then
        (case traverse (\<lambda>t. case dict_get earliest t of
                               Inl e \<Rightarrow> Inl e
                             | Inr et \<Rightarrow> Inr (et + get_duration t tasks)) (no_succ_list tasks) of
           Inl e \<Rightarrow> Inl e
         | Inr xs \<Rightarrow> py_max xs)
      else Inr 0)"

text \<open>The body of the backward loop.\<close>

fun backward_step :: "task list \<Rightarrow> int \<Rightarrow> task \<Rightarrow> dict \<Rightarrow> error + dict" where
  "backward_step tasks omega (t_id, dur, preds) latest =
     (let succs = map fst (filter (\<lambda>(tid, d, pds). t_id \<in> set pds) tasks)
      in if succs = [] then
           (if t_id \<noteq> omega then
              (case dict_get latest omega of
                 Inl e \<Rightarrow> Inl e
               | Inr lo \<Rightarrow> Inr (AList.update t_id (lo - dur) latest))
            else Inr latest)
         else
           (case traverse (dict_get latest) succs of
              Inl e \<Rightarrow> Inl e
            | Inr ls \<Rightarrow>
                (case py_min ls of
                   Inl e \<Rightarrow> Inl e
                 | Inr v \<Rightarrow> Inr (AList.update t_id (v - dur) latest))))"

text \<open>\<open>omega = max(ranks.keys())\<close>\<close>

definition schedule_omega :: "dict \<Rightarrow> error + int" where
  "schedule_omega ranks = py_max (map fst ranks)"

definition compute_schedules :: "task list \<Rightarrow> dict \<Rightarrow> error + dict \<times> dict" where
  "compute_schedules tasks ranks =
     (case schedule_omega ranks of
        Inl e \<Rightarrow> Inl e
      | Inr omega \<Rightarrow>
     (case sorted_by_rank tasks ranks of
        Inl e \<Rightarrow> Inl e
      | Inr sorted_tasks \<Rightarrow>
     (case fold_err (forward_step tasks) sorted_tasks [(0, 0)] of
        Inl e \<Rightarrow> Inl e
      | Inr earliest1 \<Rightarrow>
     (case earliest_omega tasks earliest1 of
        Inl e \<Rightarrow> Inl e
      | Inr eo \<Rightarrow>
     (let earliest = AList.update omega eo earliest1
      in case dict_get earliest omega of
           Inl e \<Rightarrow> Inl e
         | Inr lo \<Rightarrow>
             (case fold_err (backward_step tasks omega) (rev sorted_tasks)
                     (AList.update omega lo []) of
                Inl e \<Rightarrow> Inl e
              | Inr latest \<Rightarrow> Inr (earliest, latest)))))))"

section \<open>Slacks and critical vertices\<close>

text \<open>
  \<open>all_nodes\<close> is the union of the two key sets; it is iterated as a list without
  duplicates. Every error of the loop is a KeyError, whatever the order.
\<close>

definition slack_step :: "dict \<Rightarrow> dict \<Rightarrow> int \<Rightarrow> dict \<Rightarrow> error + dict" where
  "slack_step earliest latest node slacks =
     (case dict_get latest node of
        Inl e \<Rightarrow> Inl e
      | Inr l \<Rightarrow>
          (case dict_get earliest node of
             Inl e \<Rightarrow> Inl e
           | Inr e \<Rightarrow> Inr (AList.update node (l - e) slacks)))"

definition calculate_slacks :: "dict \<Rightarrow> dict \<Rightarrow> error + dict" where
  "calculate_slacks earliest latest =
     (let all_nodes = remdups (map fst earliest @ map fst latest)
      in fold_err (slack_step earliest latest) all_nodes [])"

text \<open>The list \<open>critical_nodes_sorted\<close> that \<open>show_critical_path\<close> prints.\<close>

definition critical_nodes_sorted :: "dict \<Rightarrow> dict \<Rightarrow> int list" where
  "critical_nodes_sorted slacks ranks =
     sort_key (\<lambda>x. (case map_of ranks x of None \<Rightarrow> 9999 | Some r \<Rightarrow> r, x))
       (map fst (filter (\<lambda>(node, slack). slack = 0) slacks))"

section \<open>Notions the properties are stated with\<close>

text \<open>Some task names a predecessor id that no task of the list carries.\<close>

definition unresolved :: "task list \<Rightarrow> bool" where
  "unresolved tasks = (\<exists>t \<in> set tasks. \<exists>p \<in> set (preds_of t). p \<notin> id_of ` set tasks)"

text \<open>The integers Python accepts as an index into a list of length \<open>n\<close>.\<close>

definition valid_index :: "int \<Rightarrow> nat \<Rightarrow> bool" where
  "valid_index i n = (- int n \<le> i \<and> i < int n)"

definition square :: "nat \<Rightarrow> matrix \<Rightarrow> bool" where
  "square n m = (length m = n \<and> (\<forall>row \<in> set m. length row = n))"

text \<open>The task list of the specification's concrete scenario.\<close>

definition scenario :: "task list" where
  "scenario = [(1, 3, []), (2, 2, [1]), (3, 4, [1]), (4, 1, [2, 3])]"

text \<open>\<open>d.keys()\<close> as a set.\<close>

definition keys :: "dict \<Rightarrow> int set" where
  "keys d = fst ` set d"

declare rank_step.simps [simp del] forward_step.simps [simp del] backward_step.simps [simp del]

text \<open>The value stored under a key that is known to be present.\<close>

definition val :: "dict \<Rightarrow> int \<Rightarrow> int" where
  "val d k = the (map_of d k)"

text \<open>The end vertex \<open>max(ranks.keys()) + 1\<close> of \<open>assign_ranks\<close>, as a number.\<close>

definition omega_of :: "task list \<Rightarrow> int" where
  "omega_of tasks = Max (insert 0 (id_of ` set tasks)) + 1"

text \<open>
  The arcs of the scheduling graph over the vertex ids: from the start vertex 0 to every task
  without predecessor, from every listed predecessor to its task, and from every task without
  successor to the end vertex.
\<close>

definition edges :: "task list \<Rightarrow> (int \<times> int) set" where
  "edges tasks =
     {(0, id_of t) | t. t \<in> set tasks \<and> preds_of t = []} \<union>
     {(p, id_of t) | p t. t \<in> set tasks \<and> p \<in> set (preds_of t)} \<union>
     {(id_of t, omega_of tasks) | t. t \<in> set tasks \<and> id_of t \<in> no_succ tasks}"

text \<open>What every pass of the rank loop keeps: distinct keys, no negative rank, and rank 0 for
  the start vertex unless a task carries the id 0.\<close>

definition rank_inv :: "task list \<Rightarrow> dict \<Rightarrow> bool" where
  "rank_inv tasks r \<longleftrightarrow>
     distinct (map fst r) \<and> 0 \<in> keys r \<and> (\<forall>k \<in> keys r. 0 \<le> val r k) \<and>
     (0 \<notin> id_of ` set tasks \<longrightarrow> val r 0 = 0)"

text \<open>The earliest dates of the tasks in \<open>D\<close> respect their predecessors.\<close>

definition forward_ok :: "task list \<Rightarrow> task set \<Rightarrow> dict \<Rightarrow> bool" where
  "forward_ok tasks D e \<longleftrightarrow>
     (\<forall>s \<in> D. \<forall>p \<in> set (preds_of s). val e p + get_duration p tasks \<le> val e (id_of s))"

text \<open>No latest date lies below the earliest date of its vertex.\<close>

definition backward_ok :: "dict \<Rightarrow> dict \<Rightarrow> bool" where
  "backward_ok e l \<longleftrightarrow> (\<forall>k \<in> keys l. val e k \<le> val l k)"

text \<open>The arcs \<open>detect_cycle\<close> reads off a matrix: the cells that are not \<open>"*"\<close>.\<close>

definition arcs :: "matrix \<Rightarrow> (nat \<times> nat) set" where
  "arcs m = {(i, j). i < length m \<and> j < length m \<and> m ! i ! j \<noteq> None}"

text \<open>
  The invariant of the \<open>while queue:\<close> loop, with the set \<open>P\<close> of vertices removed so far:
  \<open>in_degree\<close> counts the predecessors outside \<open>P\<close>, the queue holds exactly the vertices
  outside \<open>P\<close> whose count is zero, \<open>P\<close> is closed under predecessors and meets no cycle.
\<close>

definition kahn_inv :: "matrix \<Rightarrow> nat set \<Rightarrow> nat list \<Rightarrow> int list \<Rightarrow> nat \<Rightarrow> bool" where
  "kahn_inv m P q ds c \<longleftrightarrow>
     length ds = length m \<and> P \<subseteq> {..<length m} \<and> distinct q \<and> set q \<subseteq> {..<length m} \<and>
     set q \<inter> P = {} \<and> c = card P \<and>
     (\<forall>v<length m. ds ! v = int (card {u. u \<notin> P \<and> (u, v) \<in> arcs m})) \<and>
     (\<forall>v<length m. v \<notin> P \<longrightarrow> (v \<in> set q \<longleftrightarrow> ds ! v = 0)) \<and>
     (\<forall>v \<in> P. \<forall>u. (u, v) \<in> arcs m \<longrightarrow> u \<in> P) \<and>
     (\<forall>v \<in> P. (v, v) \<notin> (arcs m)\<^sup>+)"

text \<open>The precedence relation: a listed predecessor, then the task that lists it.\<close>

definition pred_rel :: "task list \<Rightarrow> (int \<times> int) set" where
  "pred_rel tasks = {(p, id_of t) | p t. t \<in> set tasks \<and> p \<in> set (preds_of t)}"

text \<open>The rank one task record asks for, given the ranks \<open>f\<close> of its predecessors.\<close>

definition tuple_rank :: "(int \<Rightarrow> int) \<Rightarrow> task \<Rightarrow> int" where
  "tuple_rank f t =
     (if preds_of t = [] then (if id_of t = 0 then 0 else 1)
      else 1 + Max (f ` set (preds_of t)))"

text \<open>The largest rank asked for by the records of one id; 0 for an id without record.\<close>

definition depth_step :: "task list \<Rightarrow> (int \<Rightarrow> int) \<Rightarrow> int \<Rightarrow> int" where
  "depth_step tasks f i = Max (insert 0 (tuple_rank f ` {t \<in> set tasks. id_of t = i}))"

text \<open>
  The longest-path rank of every vertex, by well-founded recursion along the precedence
  relation. It is the value the relaxation converges to; the code never computes it this way.
\<close>

definition depth :: "task list \<Rightarrow> int \<Rightarrow> int" where
  "depth tasks = wfrec (pred_rel tasks) (depth_step tasks)"

text \<open>After \<open>k\<close> passes: no rank is negative or above its final value, and every vertex whose
  final rank is at most \<open>k\<close> has reached it.\<close>

definition lvl :: "task list \<Rightarrow> nat \<Rightarrow> dict \<Rightarrow> bool" where
  "lvl tasks k r \<longleftrightarrow>
     (\<forall>x \<in> insert 0 (id_of ` set tasks).
        0 \<le> val r x \<and> val r x \<le> depth tasks x \<and> (depth tasks x \<le> int k \<longrightarrow> val r x = depth tasks x))"

text \<open>Within pass \<open>k + 1\<close>: the records in \<open>D\<close>, already visited, have been granted the
  rank they ask for when their final rank is at most \<open>k + 1\<close>.\<close>

definition settled :: "task list \<Rightarrow> nat \<Rightarrow> task set \<Rightarrow> dict \<Rightarrow> bool" where
  "settled tasks k D r \<longleftrightarrow>
     (\<forall>t \<in> D. depth tasks (id_of t) \<le> int (Suc k) \<longrightarrow> tuple_rank (depth tasks) t \<le> val r (id_of t))"

text \<open>Every predecessor is a task id or the start vertex.\<close>

definition resolved :: "task list \<Rightarrow> bool" where
  "resolved tasks \<longleftrightarrow> (\<forall>t \<in> set tasks. set (preds_of t) \<subseteq> insert 0 (id_of ` set tasks))"

text \<open>The shape of the rank dictionary: distinct keys, namely the start vertex, the task ids
  and the end vertex.\<close>

definition good :: "task list \<Rightarrow> dict \<Rightarrow> bool" where
  "good tasks r \<longleftrightarrow>
     distinct (map fst r) \<and> keys r = insert (omega_of tasks) (insert 0 (id_of ` set tasks))"

text \<open>
  The cells that \<open>build_adjacency_matrix\<close> fills when every task id is an index counted
  from the front: per task the arc from the start vertex or the arcs from the predecessors
  that some task carries, and per task without successor the arc into column
  \<open>len(tasks) + 1\<close>.
\<close>

definition task_arcs :: "task list \<Rightarrow> task \<Rightarrow> (nat \<times> nat) set" where
  "task_arcs tasks t =
     (if preds_of t = [] then {(0, nat (id_of t))}
      else {(nat p, nat (id_of t)) | p. p \<in> set (preds_of t) \<and> p \<in> id_of ` set tasks})"

definition omega_arcs :: "task list \<Rightarrow> task \<Rightarrow> (nat \<times> nat) set" where
  "omega_arcs tasks t =
     (if id_of t \<in> no_succ tasks then {(nat (id_of t), length tasks + 1)} else {})"

definition matrix_arcs :: "task list \<Rightarrow> (nat \<times> nat) set" where
  "matrix_arcs tasks =
     (\<Union>t \<in> set tasks. task_arcs tasks t) \<union> (\<Union>t \<in> set tasks. omega_arcs tasks t)"

text \<open>
  The arc count in the words of the specification, to compare \<open>count_arcs\<close> with: the sum
  over the tasks of \<open>max(1, |predecessors|)\<close> plus the number of tasks that never appear as
  a predecessor of another task.
\<close>

definition never_predecessor_of_another :: "task list \<Rightarrow> task \<Rightarrow> bool" where
  "never_predecessor_of_another tasks t \<longleftrightarrow>
     (\<forall>s \<in> set tasks. s \<noteq> t \<longrightarrow> id_of t \<notin> set (preds_of s))"

definition claimed_arc_count :: "task list \<Rightarrow> int" where
  "claimed_arc_count tasks =
     (\<Sum>t\<leftarrow>tasks. max 1 (int (length (preds_of t))))
       + int (length (filter (never_predecessor_of_another tasks) tasks))"

section \<open>The arc count\<close>

lemma fold_add_preds: "fold add_preds tasks S = S \<union> (\<Union>t\<in>set tasks. set (preds_of t))"
proof (induction tasks arbitrary: S)
  case Nil
  then show ?case by simp
next
  case (Cons t tasks)
  obtain i d ps where t: "t = (i, d, ps)" by (cases t)
  have "fold insert ps S = S \<union> set ps" for S :: "int set"
    by (induction ps arbitrary: S) auto
  with Cons show ?case by (auto simp: t preds_of_def)
qed

lemma fold_count_arcs_step:
  "fold count_arcs_step tasks (a, A, H) =
     (a + (\<Sum>t\<leftarrow>tasks. max 1 (int (length (preds_of t)))), A \<union> id_of ` set tasks,
      H \<union> (\<Union>t\<in>set tasks. set (preds_of t)))"
proof (induction tasks arbitrary: a A H)
  case Nil
  then show ?case by simp
next
  case (Cons t tasks)
  obtain i d ps where t: "t = (i, d, ps)" by (cases t)
  show ?case
  proof (cases "ps = []")
    case True
    with Cons [of "a + 1" "insert i A" H] show ?thesis
      by (simp add: t preds_of_def id_of_def)
  next
    case False
    then have "max 1 (int (length ps)) = int (length ps)"
      by (cases ps) auto
    with False Cons [of "a + int (length ps)" "insert i A" "H \<union> set ps"] show ?thesis
      by (simp add: t preds_of_def id_of_def Un_assoc)
  qed
qed

lemma card_ids_filter:
  assumes "distinct (map id_of tasks)"
  shows "card (id_of ` set tasks - U) = length (filter (\<lambda>t. id_of t \<notin> U) tasks)"
proof -
  have "id_of ` set tasks - U = set (map id_of (filter (\<lambda>t. id_of t \<notin> U) tasks))"
    by auto
  moreover have "distinct (map id_of (filter (\<lambda>t. id_of t \<notin> U) tasks))"
    using assms by (rule distinct_map_filter)
  ultimately show ?thesis
    by (simp add: distinct_card del: set_map)
qed

lemma never_predecessor_iff:
  assumes "\<forall>t \<in> set tasks. id_of t \<notin> set (preds_of t)" and "t \<in> set tasks"
  shows "never_predecessor_of_another tasks t
           \<longleftrightarrow> id_of t \<notin> (\<Union>s\<in>set tasks. set (preds_of s))"
  using assms by (auto simp: never_predecessor_of_another_def)

lemma claimed_arc_count_eq:
  assumes "\<forall>t \<in> set tasks. id_of t \<notin> set (preds_of t)"
  shows "claimed_arc_count tasks =
     (\<Sum>t\<leftarrow>tasks. max 1 (int (length (preds_of t))))
       + int (length (filter (\<lambda>t. id_of t \<notin> (\<Union>s\<in>set tasks. set (preds_of s))) tasks))"
proof -
  have "filter (never_predecessor_of_another tasks) tasks
      = filter (\<lambda>t. id_of t \<notin> (\<Union>s\<in>set tasks. set (preds_of s))) tasks"
    by (rule filter_cong [OF refl]) (rule never_predecessor_iff [OF assms])
  then show ?thesis
    by (simp only: claimed_arc_count_def)
qed

text \<open>
  Claim C10 as stated fails: the single task 1 lists itself as predecessor. It never appears
  as a predecessor of another task, so the claimed count is \<open>max(1, 1) + 1 = 2\<close>; the code
  finds the id 1 in a predecessor list, takes the task to have a successor and returns 1.
\<close>

theorem count_arcs_self_predecessor_counterexample:
  "count_vertices [(1, 1, [1])] = 3 \<and> count_arcs [(1, 1, [1])] = 1 \<and>
   claimed_arc_count [(1, 1, [1])] = 2"
  by (simp add: count_vertices_def count_arcs_def claimed_arc_count_def
      never_predecessor_of_another_def preds_of_def id_of_def)

text \<open>
  Claim C10, as amended. For every task list, \<open>count_vertices\<close> is the number of tasks
  plus two, and \<open>count_arcs\<close> is the sum over the tasks of \<open>max(1, len(preds))\<close> plus the
  number of distinct task ids that occur in no predecessor list, a task's own list included.
  When the ids are pairwise distinct that is the number of tasks whose id occurs in no
  predecessor list, and when moreover no task lists itself it is the count of the
  specification.
\<close>

theorem count_arcs_by_ids:
  "count_vertices tasks = int (length tasks) + 2 \<and>
   count_arcs tasks =
     (\<Sum>t\<leftarrow>tasks. max 1 (int (length (preds_of t))))
       + int (card (id_of ` set tasks - (\<Union>t\<in>set tasks. set (preds_of t)))) \<and>
   (distinct (map id_of tasks) \<longrightarrow>
      count_arcs tasks =
        (\<Sum>t\<leftarrow>tasks. max 1 (int (length (preds_of t))))
          + int (length (filter (\<lambda>t. id_of t \<notin> (\<Union>s\<in>set tasks. set (preds_of s))) tasks))) \<and>
   (distinct (map id_of tasks) \<and> (\<forall>t \<in> set tasks. id_of t \<notin> set (preds_of t)) \<longrightarrow>
      count_arcs tasks = claimed_arc_count tasks)"
proof -
  have a: "count_arcs tasks =
     (\<Sum>t\<leftarrow>tasks. max 1 (int (length (preds_of t))))
       + int (card (id_of ` set tasks - (\<Union>t\<in>set tasks. set (preds_of t))))"
    by (simp add: count_arcs_def fold_count_arcs_step fold_add_preds)
  have b: "count_arcs tasks =
        (\<Sum>t\<leftarrow>tasks. max 1 (int (length (preds_of t))))
          + int (length (filter (\<lambda>t. id_of t \<notin> (\<Union>s\<in>set tasks. set (preds_of s))) tasks))"
    if "distinct (map id_of tasks)"
    unfolding a card_ids_filter [OF that] ..
  have c: "count_arcs tasks = claimed_arc_count tasks"
    if "distinct (map id_of tasks)" "\<forall>t \<in> set tasks. id_of t \<notin> set (preds_of t)"
    unfolding b [OF that(1)] claimed_arc_count_eq [OF that(2)] ..
  show ?thesis
  proof (intro conjI impI)
    show "count_vertices tasks = int (length tasks) + 2"
      by (simp add: count_vertices_def)
  qed (use a b c in blast)+
qed

theorem count_arcs_by_ids_witness:
  "distinct (map id_of scenario) \<and> count_vertices scenario = 6 \<and> count_arcs scenario = 6 \<and>
   claimed_arc_count scenario = 6 \<and>
   (\<Sum>t\<leftarrow>scenario. max 1 (int (length (preds_of t)))) = 5 \<and>
   length (filter (\<lambda>t. id_of t \<notin> (\<Union>s\<in>set scenario. set (preds_of s))) scenario) = 1"
  using count_arcs_by_ids [of scenario]
  by (simp add: scenario_def preds_of_def id_of_def)

section \<open>Building the matrix\<close>

lemma py_index_valid: "valid_index i n \<Longrightarrow> \<exists>k. py_index i n = Some k \<and> k < n"
  by (auto simp: valid_index_def py_index_def)

lemma py_index_Some: "py_index i n = Some k \<Longrightarrow> k < n \<and> valid_index i n"
  by (auto simp: valid_index_def py_index_def split: if_splits)

lemma set_cell_error: "set_cell m i j v = Inl e \<Longrightarrow> e = IndexError"
  by (auto simp: set_cell_def split: option.splits)

lemma set_cell_square:
  assumes "square n m" "valid_index i n" "valid_index j n"
  shows "\<exists>m'. set_cell m i j v = Inr m' \<and> square n m'"
proof -
  from assms obtain r where r: "py_index i (length m) = Some r" "r < n"
    using py_index_valid [of i n] by (auto simp: square_def)
  with assms have len: "length (m ! r) = n"
    by (auto simp: square_def)
  with assms obtain c where c: "py_index j (length (m ! r)) = Some c"
    using py_index_valid [of j n] by auto
  have "square n (m[r := (m ! r)[c := v]])"
    using assms(1) len by (auto simp: square_def dest!: set_update_subset_insert [THEN subsetD])
  with r c show ?thesis
    by (simp add: set_cell_def)
qed

lemma pred_duration_Some: "pred_duration p tasks = Some d \<Longrightarrow> p \<in> id_of ` set tasks"
  by (induction p tasks rule: pred_duration.induct) (auto simp: id_of_def split: if_splits)

lemma pred_duration_None: "p \<notin> id_of ` set tasks \<Longrightarrow> pred_duration p tasks = None"
  using pred_duration_Some [of p tasks] by (cases "pred_duration p tasks") auto

lemma fold_err_error:
  assumes "\<And>x s e. f x s = Inl e \<Longrightarrow> e = IndexError"
  shows "fold_err f xs s = Inl e \<Longrightarrow> e = IndexError"
proof (induction xs arbitrary: s)
  case Nil
  then show ?case by simp
next
  case (Cons x xs)
  then show ?case
    using assms by (cases "f x s") auto
qed

lemma fold_err_total:
  assumes "\<And>x s. x \<in> set xs \<Longrightarrow> P s \<Longrightarrow> \<exists>s'. f x s = Inr s' \<and> P s'"
    and "P s"
  shows "\<exists>s'. fold_err f xs s = Inr s' \<and> P s'"
  using assms
proof (induction xs arbitrary: s)
  case Nil
  then show ?case by simp
next
  case (Cons x xs)
  from Cons.prems obtain s1 where s1: "f x s = Inr s1" "P s1"
    by (meson list.set_intros(1))
  from Cons.IH [of s1] Cons.prems(1) s1 obtain s' where "fold_err f xs s1 = Inr s'" "P s'"
    by (meson list.set_intros(2))
  with s1 show ?case by simp
qed

lemma place_pred_error: "place_pred tasks t_id p m = Inl e \<Longrightarrow> e = IndexError"
  by (auto simp: place_pred_def split: option.splits dest: set_cell_error)

lemma place_task_error: "place_task tasks t m = Inl e \<Longrightarrow> e = IndexError"
proof -
  obtain i d ps where t: "t = (i, d, ps)" by (cases t)
  assume "place_task tasks t m = Inl e"
  then show ?thesis
    unfolding t using fold_err_error [of "place_pred tasks i" ps m e]
    by (auto split: if_splits dest: set_cell_error place_pred_error)
qed

lemma place_omega_error: "place_omega tasks omega t m = Inl e \<Longrightarrow> e = IndexError"
  by (cases t) (auto split: if_splits dest: set_cell_error)

lemma build_error:
  assumes "build_adjacency_matrix tasks = Inl e"
  shows "e = IndexError"
proof -
  let ?n = "length tasks + 2"
  let ?m0 = "replicate ?n (replicate ?n None) :: matrix"
  show ?thesis
  proof (cases "fold_err (place_task tasks) tasks ?m0")
    case (Inl e')
    with assms have "e' = e"
      by (simp add: build_adjacency_matrix_def Let_def del: replicate_Suc)
    with Inl fold_err_error [of "place_task tasks" tasks ?m0 e] show ?thesis
      by (auto dest: place_task_error)
  next
    case (Inr m1)
    with assms have "fold_err (place_omega tasks (matrix_omega tasks)) tasks m1 = Inl e"
      by (simp add: build_adjacency_matrix_def Let_def del: replicate_Suc)
    with fold_err_error [of "place_omega tasks (matrix_omega tasks)" tasks m1 e] show ?thesis
      by (auto dest: place_omega_error)
  qed
qed

lemma place_pred_square:
  assumes "square n m" "valid_index t_id n" "\<forall>t \<in> set tasks. valid_index (id_of t) n"
  shows "\<exists>m'. place_pred tasks t_id p m = Inr m' \<and> square n m'"
proof (cases "pred_duration p tasks")
  case None
  with assms show ?thesis by (simp add: place_pred_def)
next
  case (Some d)
  with assms(3) have "valid_index p n"
    by (auto dest: pred_duration_Some)
  from set_cell_square [OF assms(1) this assms(2)] Some show ?thesis
    by (simp add: place_pred_def)
qed

lemma place_task_square:
  assumes "square n m" "t \<in> set tasks" "\<forall>t \<in> set tasks. valid_index (id_of t) n" "0 < n"
  shows "\<exists>m'. place_task tasks t m = Inr m' \<and> square n m'"
proof -
  obtain i d ps where t: "t = (i, d, ps)" by (cases t)
  with assms have i: "valid_index i n"
    by (auto simp: id_of_def)
  have z: "valid_index 0 n"
    using assms(4) by (simp add: valid_index_def)
  show ?thesis
  proof (cases "ps = []")
    case True
    with set_cell_square [OF assms(1) z i] show ?thesis
      by (simp add: t)
  next
    case False
    have "\<exists>m'. fold_err (place_pred tasks i) ps m = Inr m' \<and> square n m'"
      by (rule fold_err_total [where P = "square n"])
        (use assms i in \<open>auto intro: place_pred_square\<close>)
    with False show ?thesis by (simp add: t)
  qed
qed

lemma place_omega_square:
  assumes "square n m" "t \<in> set tasks" "\<forall>t \<in> set tasks. valid_index (id_of t) n"
    "valid_index omega n"
  shows "\<exists>m'. place_omega tasks omega t m = Inr m' \<and> square n m'"
proof -
  obtain i d ps where t: "t = (i, d, ps)" by (cases t)
  with assms have i: "valid_index i n"
    by (auto simp: id_of_def)
  from set_cell_square [OF assms(1) i assms(4)] assms(1) show ?thesis
    by (auto simp: t)
qed

lemma build_total:
  assumes "\<forall>t \<in> set tasks. valid_index (id_of t) (length tasks + 2)"
  shows "\<exists>m. build_adjacency_matrix tasks = Inr m \<and> square (length tasks + 2) m"
proof -
  let ?n = "length tasks + 2"
  have sq: "square ?n (replicate ?n (replicate ?n None))"
    by (simp add: square_def)
  have "\<exists>m1. fold_err (place_task tasks) tasks (replicate ?n (replicate ?n None)) = Inr m1
          \<and> square ?n m1"
    by (rule fold_err_total [where P = "square ?n"])
      (use assms sq in \<open>auto intro: place_task_square\<close>)
  then obtain m1 where m1: "fold_err (place_task tasks) tasks (replicate ?n (replicate ?n None)) = Inr m1"
    "square ?n m1" by blast
  have om: "valid_index (matrix_omega tasks) ?n"
    by (simp add: valid_index_def matrix_omega_def)
  have "\<exists>m2. fold_err (place_omega tasks (matrix_omega tasks)) tasks m1 = Inr m2 \<and> square ?n m2"
    by (rule fold_err_total [where P = "square ?n"])
      (use assms m1 om in \<open>auto intro: place_omega_square\<close>)
  with m1 show ?thesis
    by (simp add: build_adjacency_matrix_def Let_def)
qed

text \<open>
  Claim C4 as stated fails: task 1 names the predecessor 5, which no task carries, and the
  matrix is built all the same, without the arc and without any error.
\<close>

theorem unresolved_predecessor_no_error_counterexample:
  "unresolved [(1, 3, [5])] \<and>
   build_adjacency_matrix [(1, 3, [5])]
     = Inr [[None, None, None], [None, None, Some 3], [None, None, None]]"
  by (simp add: unresolved_def preds_of_def id_of_def build_adjacency_matrix_def
      matrix_omega_def place_pred_def set_cell_def py_index_def no_succ_def tasks_with_preds_def)

text \<open>
  Claim C4, as amended. \<open>build_adjacency_matrix\<close> reports nothing for a predecessor id that
  no task carries: the inner loop leaves the matrix as it is for such an id and goes on. The
  only error the construction can raise is an IndexError, and when every task id is a valid
  index of the \<open>len(tasks) + 2\<close> rows it returns a square matrix, whether or not the
  predecessors are resolved.
\<close>

theorem unresolved_predecessor_skipped:
  "(\<forall>t_id p m. p \<notin> id_of ` set tasks \<longrightarrow> place_pred tasks t_id p m = Inr m) \<and>
   (\<forall>e. build_adjacency_matrix tasks = Inl e \<longrightarrow> e = IndexError) \<and>
   ((\<forall>t \<in> set tasks. valid_index (id_of t) (length tasks + 2)) \<longrightarrow>
      (\<exists>m. build_adjacency_matrix tasks = Inr m \<and> square (length tasks + 2) m))"
  using build_total [of tasks] build_error [of tasks]
  by (auto simp: pred_duration_None place_pred_def)

theorem unresolved_predecessor_skipped_witness:
  "unresolved [(1, 3, [5])] \<and> place_pred [(1, 3, [5])] 1 5 [[None]] = Inr [[None]] \<and>
   valid_index 1 3 \<and>
   (\<exists>m. build_adjacency_matrix [(1, 3, [5])] = Inr m \<and> square 3 m)"
  using unresolved_predecessor_skipped [of "[(1, 3, [5])]"]
  by (simp add: unresolved_def preds_of_def id_of_def valid_index_def numeral_3_eq_3)

text \<open>The arcs of the matrix that is built, cell by cell.\<close>

lemma set_cell_arcs:
  assumes "square n m" "0 \<le> i" "i < int n" "0 \<le> j" "j < int n"
  shows "\<exists>m'. set_cell m i j (Some v) = Inr m' \<and> square n m' \<and>
           arcs m' = insert (nat i, nat j) (arcs m)"
proof -
  from assms have len: "length m = n" and row: "length (m ! nat i) = n"
    by (auto simp: square_def)
  define m' where "m' = m[nat i := (m ! nat i)[nat j := Some v]]"
  have s: "set_cell m i j (Some v) = Inr m'"
    using assms(2-5) by (simp add: set_cell_def py_index_def len row m'_def)
  have v: "valid_index i n" "valid_index j n"
    using assms(2-5) by (simp_all add: valid_index_def)
  from set_cell_square [OF assms(1) v, of "Some v"] s have sq: "square n m'"
    by simp
  have cell: "m' ! a ! b = (if a = nat i \<and> b = nat j then Some v else m ! a ! b)"
    if "a < n" "b < n" for a b
    using that assms(2-5) len row by (auto simp: m'_def nth_list_update)
  have "length m' = n"
    by (simp add: m'_def len)
  then have "arcs m' = insert (nat i, nat j) (arcs m)"
    using assms(2-5) cell len by (auto simp: arcs_def)
  with s sq show ?thesis by blast
qed

lemma fold_err_collect:
  assumes "\<And>x s. x \<in> set xs \<Longrightarrow> Q s \<Longrightarrow> \<exists>s'. f x s = Inr s' \<and> Q s' \<and> g s' = g s \<union> h x"
    and "Q s"
  shows "\<exists>s'. fold_err f xs s = Inr s' \<and> Q s' \<and> g s' = g s \<union> (\<Union>x \<in> set xs. h x)"
  using assms
proof (induction xs arbitrary: s)
  case Nil
  then show ?case by simp
next
  case (Cons x xs)
  from Cons.prems obtain s1 where s1: "f x s = Inr s1" "Q s1" "g s1 = g s \<union> h x"
    by (meson list.set_intros(1))
  from Cons.IH [of s1] Cons.prems(1) s1(2) obtain s' where
    s': "fold_err f xs s1 = Inr s'" "Q s'" "g s' = g s1 \<union> (\<Union>x \<in> set xs. h x)"
    by (meson list.set_intros(2))
  from s1 s' show ?case by auto
qed

lemma place_pred_arcs:
  assumes "square n m" "0 \<le> t_id" "t_id < int n"
    and "\<forall>t \<in> set tasks. 0 \<le> id_of t \<and> id_of t < int n"
  shows "\<exists>m'. place_pred tasks t_id p m = Inr m' \<and> square n m' \<and>
           arcs m' = arcs m \<union> (if p \<in> id_of ` set tasks then {(nat p, nat t_id)} else {})"
proof (cases "pred_duration p tasks")
  case None
  then have "p \<notin> id_of ` set tasks"
    by (induction p tasks rule: pred_duration.induct) (auto simp: id_of_def split: if_splits)
  with None assms(1) show ?thesis
    by (simp add: place_pred_def)
next
  case (Some d)
  then have p: "p \<in> id_of ` set tasks"
    by (rule pred_duration_Some)
  with assms(4) have "0 \<le> p" "p < int n" by auto
  from set_cell_arcs [OF assms(1) this assms(2,3), of d] Some p show ?thesis
    by (simp add: place_pred_def)
qed

lemma place_task_arcs:
  assumes "square n m" "t \<in> set tasks" "0 < n"
    and "\<forall>t \<in> set tasks. 0 \<le> id_of t \<and> id_of t < int n"
  shows "\<exists>m'. place_task tasks t m = Inr m' \<and> square n m' \<and>
           arcs m' = arcs m \<union> task_arcs tasks t"
proof -
  obtain i d ps where t: "t = (i, d, ps)" by (cases t)
  with assms have i: "0 \<le> i" "i < int n"
    by (auto simp: id_of_def)
  show ?thesis
  proof (cases "ps = []")
    case True
    have "(0::int) \<le> 0" "0 < int n" using assms(3) by simp_all
    from set_cell_arcs [OF assms(1) this i, of 0] True show ?thesis
      by (simp add: t task_arcs_def preds_of_def id_of_def)
  next
    case False
    have "\<exists>m'. fold_err (place_pred tasks i) ps m = Inr m' \<and> square n m' \<and>
            arcs m' = arcs m \<union> (\<Union>p \<in> set ps. if p \<in> id_of ` set tasks then {(nat p, nat i)} else {})"
    proof (rule fold_err_collect [where Q = "square n" and g = arcs
          and h = "\<lambda>p. if p \<in> id_of ` set tasks then {(nat p, nat i)} else {}"])
      fix p s assume "square n s"
      from place_pred_arcs [OF this i assms(4)]
      show "\<exists>s'. place_pred tasks i p s = Inr s' \<and> square n s' \<and>
              arcs s' = arcs s \<union> (if p \<in> id_of ` set tasks then {(nat p, nat i)} else {})" .
    qed (rule assms(1))
    moreover have "(\<Union>p \<in> set ps. if p \<in> id_of ` set tasks then {(nat p, nat i)} else {})
        = task_arcs tasks t"
      using False by (auto simp: t task_arcs_def preds_of_def id_of_def split: if_splits)
    ultimately show ?thesis
      using False by (simp add: t)
  qed
qed

lemma place_omega_arcs:
  assumes "square n m" "t \<in> set tasks" "n = length tasks + 2"
    and "\<forall>t \<in> set tasks. 0 \<le> id_of t \<and> id_of t < int n"
  shows "\<exists>m'. place_omega tasks (matrix_omega tasks) t m = Inr m' \<and> square n m' \<and>
           arcs m' = arcs m \<union> omega_arcs tasks t"
proof -
  obtain i d ps where t: "t = (i, d, ps)" by (cases t)
  with assms have i: "0 \<le> i" "i < int n"
    by (auto simp: id_of_def)
  have o: "0 \<le> matrix_omega tasks" "matrix_omega tasks < int n"
    "nat (matrix_omega tasks) = length tasks + 1"
    using assms(3) by (simp_all add: matrix_omega_def)
  show ?thesis
  proof (cases "i \<in> no_succ tasks")
    case True
    from set_cell_arcs [OF assms(1) i o(1,2), of d] True show ?thesis
      by (simp add: t omega_arcs_def id_of_def o(3))
  next
    case False
    with assms(1) show ?thesis
      by (simp add: t omega_arcs_def id_of_def)
  qed
qed

lemma build_arcs:
  assumes "\<forall>t \<in> set tasks. 0 \<le> id_of t \<and> id_of t \<le> int (length tasks) + 1"
  shows "\<exists>m. build_adjacency_matrix tasks = Inr m \<and> square (length tasks + 2) m \<and>
           arcs m = matrix_arcs tasks"
proof -
  define n where "n = length tasks + 2"
  define m0 :: matrix where "m0 = replicate n (replicate n None)"
  have ids: "\<forall>t \<in> set tasks. 0 \<le> id_of t \<and> id_of t < int n"
    using assms by (auto simp: n_def)
  have sq: "square n m0"
    by (simp add: square_def m0_def)
  have a0: "arcs m0 = {}"
    by (auto simp: arcs_def m0_def)
  have "\<exists>m1. fold_err (place_task tasks) tasks m0 = Inr m1 \<and> square n m1 \<and>
          arcs m1 = arcs m0 \<union> (\<Union>t \<in> set tasks. task_arcs tasks t)"
    by (rule fold_err_collect [where Q = "square n" and g = arcs])
      (use ids sq in \<open>auto intro!: place_task_arcs simp: n_def\<close>)
  then obtain m1 where m1: "fold_err (place_task tasks) tasks m0 = Inr m1" "square n m1"
    "arcs m1 = (\<Union>t \<in> set tasks. task_arcs tasks t)"
    using a0 by auto
  have "\<exists>m2. fold_err (place_omega tasks (matrix_omega tasks)) tasks m1 = Inr m2 \<and> square n m2 \<and>
          arcs m2 = arcs m1 \<union> (\<Union>t \<in> set tasks. omega_arcs tasks t)"
    by (rule fold_err_collect [where Q = "square n" and g = arcs])
      (use ids m1(2) in \<open>auto intro!: place_omega_arcs simp: n_def\<close>)
  then obtain m2 where m2: "fold_err (place_omega tasks (matrix_omega tasks)) tasks m1 = Inr m2"
    "square n m2" "arcs m2 = matrix_arcs tasks"
    using m1(3) by (auto simp: matrix_arcs_def)
  have "build_adjacency_matrix tasks = Inr m2"
    using m1(1) m2(1) by (simp add: build_adjacency_matrix_def Let_def m0_def n_def)
  with m2 show ?thesis
    by (auto simp: n_def)
qed

section \<open>Dictionary keys and the end vertex\<close>

lemma keys_update: "keys (AList.update k v d) = insert k (keys d)"
  by (simp add: keys_def AList.dom_update)

lemma dict_get_Inr: "dict_get d k = Inr v \<longleftrightarrow> map_of d k = Some v"
  by (simp add: dict_get_def split: option.splits)

lemma dict_get_Inl: "dict_get d k = Inl e \<longleftrightarrow> e = KeyError \<and> k \<notin> keys d"
proof (cases "map_of d k")
  case None
  then have "k \<notin> keys d"
    by (simp add: keys_def map_of_eq_None_iff)
  then show ?thesis
    unfolding dict_get_def None by auto
next
  case (Some v)
  then have "k \<in> keys d"
    by (auto simp: keys_def dest!: map_of_SomeD intro: rev_image_eqI)
  with Some show ?thesis
    by (simp add: dict_get_def)
qed

lemma dict_get_keys: "dict_get d k = Inr v \<Longrightarrow> k \<in> keys d"
  by (auto simp: dict_get_Inr keys_def dest: map_of_SomeD intro: rev_image_eqI)

lemma update_known: "dict_get d k = Inr v \<Longrightarrow> keys (AList.update k w d) = keys d"
  by (auto simp: keys_update dest: dict_get_keys)

lemma fold_err_preserves:
  assumes "\<And>x s s'. f x s = Inr s' \<Longrightarrow> g s' = g s"
  shows "fold_err f xs s = Inr s' \<Longrightarrow> g s' = g s"
proof (induction xs arbitrary: s)
  case Nil
  then show ?case by simp
next
  case (Cons x xs)
  then obtain s1 where s1: "f x s = Inr s1" "fold_err f xs s1 = Inr s'"
    by (cases "f x s") auto
  from Cons.IH [OF s1(2)] assms [OF s1(1)] show ?case by simp
qed

lemma fold_err_keys:
  assumes "\<And>x s s'. f x s = Inr s' \<Longrightarrow> g s' = g s \<union> K x"
  shows "fold_err f xs s = Inr s' \<Longrightarrow> g s' = g s \<union> (\<Union>x\<in>set xs. K x)"
proof (induction xs arbitrary: s)
  case Nil
  then show ?case by simp
next
  case (Cons x xs)
  then obtain s1 where s1: "f x s = Inr s1" "fold_err f xs s1 = Inr s'"
    by (cases "f x s") auto
  from Cons.IH [OF s1(2)] assms [OF s1(1)] show ?case by auto
qed

lemma keys_init_ranks: "keys (init_ranks tasks) = insert 0 (id_of ` set tasks)"
proof -
  have "keys (fold (\<lambda>t ranks. AList.update (fst t) 0 ranks) tasks d) = keys d \<union> id_of ` set tasks"
    for d
    by (induction tasks arbitrary: d) (auto simp: keys_update id_of_def)
  then show ?thesis
    by (simp add: init_ranks_def keys_def)
qed

lemma ranks_omega_eq: "ranks_omega tasks = Inr (Max (insert 0 (id_of ` set tasks)) + 1)"
proof -
  have "set (map fst (init_ranks tasks)) = insert 0 (id_of ` set tasks)"
    using keys_init_ranks [of tasks] by (simp add: keys_def)
  moreover have "map fst (init_ranks tasks) \<noteq> []"
    using calculation by auto
  ultimately show ?thesis
    by (simp add: ranks_omega_def py_max_def del: set_map)
qed

lemma rank_step_keys: "rank_step t s = Inr s' \<Longrightarrow> keys (fst s') = keys (fst s)"
  by (cases t; cases s)
    (auto simp: rank_step.simps Let_def update_known split: if_splits sum.splits)

lemma fold_rank_step_keys:
  "fold_err rank_step tasks (ranks, c) = Inr (ranks', c') \<Longrightarrow> keys ranks' = keys ranks"
  using fold_err_preserves [of rank_step "\<lambda>s. keys (fst s)" tasks "(ranks, c)" "(ranks', c')"]
    rank_step_keys by simp

lemma omega_step_keys: "omega_step omega (ranks, c) = Inr (ranks', c') \<Longrightarrow> keys ranks' = keys ranks"
  by (auto simp: omega_step_def Let_def update_known split: if_splits sum.splits)

lemma rank_pass_keys: "rank_pass tasks omega ranks = Inr (ranks', c') \<Longrightarrow> keys ranks' = keys ranks"
  by (auto simp: rank_pass_def split: sum.splits dest: fold_rank_step_keys omega_step_keys)

lemma rank_loop_keys:
  "rank_loop fuel tasks omega ranks = Some (Inr ranks') \<Longrightarrow> keys ranks' = keys ranks"
proof (induction fuel arbitrary: ranks)
  case 0
  then show ?case by simp
next
  case (Suc fuel)
  then show ?case
    by (auto split: sum.splits if_splits dest: rank_pass_keys)
qed

lemma assign_ranks_keys:
  assumes "assign_ranks fuel tasks = Some (Inr ranks)"
  shows "keys ranks = insert (Max (insert 0 (id_of ` set tasks)) + 1) (insert 0 (id_of ` set tasks))"
proof -
  let ?omega = "Max (insert 0 (id_of ` set tasks)) + 1"
  from assms obtain r where r: "rank_loop fuel tasks ?omega (AList.update ?omega 0 (init_ranks tasks)) = Some (Inr r)"
    and s: "ranks = sort r"
    by (auto simp: assign_ranks_def ranks_omega_eq split: option.splits sum.splits)
  from rank_loop_keys [OF r] show ?thesis
    by (simp add: s keys_def keys_update [unfolded keys_def] keys_init_ranks [unfolded keys_def])
qed

lemma assign_ranks_omega:
  assumes "assign_ranks fuel tasks = Some (Inr ranks)"
  shows "schedule_omega ranks = Inr (Max (insert 0 (id_of ` set tasks)) + 1)"
proof -
  let ?I = "insert 0 (id_of ` set tasks)"
  have k: "set (map fst ranks) = insert (Max ?I + 1) ?I"
    using assign_ranks_keys [OF assms] by (simp add: keys_def)
  have "Max (insert (Max ?I + 1) ?I) = Max ?I + 1"
    by (subst Max_insert) (auto simp: max_def)
  moreover have "map fst ranks \<noteq> []"
    using k by auto
  ultimately show ?thesis
    by (simp add: schedule_omega_def py_max_def k del: set_map)
qed

text \<open>
  Claim C9 fails on the code. \<open>build_adjacency_matrix\<close> takes \<open>len(tasks) + 1\<close> for the
  end vertex: when the task ids are indices counted from the front, the arc of every task
  without successor is written in that column. \<open>assign_ranks\<close> creates the key
  \<open>max(ranks.keys()) + 1\<close>, the largest id plus one, and \<open>compute_schedules\<close> reads the
  same key back. For the single task 2 the matrix has the arc of task 2 into the end vertex
  at row 2, column 2, while the rank map and both date maps carry the end vertex 3.
\<close>

theorem end_vertex_mismatch:
  "(\<forall>tasks. (\<forall>t \<in> set tasks. 0 \<le> id_of t \<and> id_of t \<le> int (length tasks) + 1) \<longrightarrow>
      (\<exists>m. build_adjacency_matrix tasks = Inr m \<and>
         (\<forall>t \<in> set tasks. id_of t \<in> no_succ tasks \<longrightarrow>
            m ! nat (id_of t) ! (length tasks + 1) \<noteq> None))) \<and>
   (\<forall>tasks fuel ranks. assign_ranks fuel tasks = Some (Inr ranks) \<longrightarrow>
      Max (insert 0 (id_of ` set tasks)) + 1 \<in> keys ranks \<and>
      schedule_omega ranks = Inr (Max (insert 0 (id_of ` set tasks)) + 1)) \<and>
   build_adjacency_matrix [(2, 1, [])]
     = Inr [[None, None, Some 0], [None, None, None], [None, None, Some 1]] \<and>
   assign_ranks 2 [(2, 1, [])] = Some (Inr [(0, 0), (2, 1), (3, 2)]) \<and>
   compute_schedules [(2, 1, [])] [(0, 0), (2, 1), (3, 2)]
     = Inr ([(0, 0), (2, 0), (3, 1)], [(3, 1), (2, 0)])"
proof (intro conjI allI impI)
  fix tasks
  assume "\<forall>t \<in> set tasks. 0 \<le> id_of t \<and> id_of t \<le> int (length tasks) + 1"
  from build_arcs [OF this] obtain m where m: "build_adjacency_matrix tasks = Inr m"
    "arcs m = matrix_arcs tasks"
    by blast
  have "m ! nat (id_of t) ! (length tasks + 1) \<noteq> None"
    if "t \<in> set tasks" "id_of t \<in> no_succ tasks" for t
  proof -
    from that have "(nat (id_of t), length tasks + 1) \<in> matrix_arcs tasks"
      by (auto simp: matrix_arcs_def omega_arcs_def)
    then show ?thesis
      unfolding m(2) [symmetric] by (simp add: arcs_def)
  qed
  with m(1) show "\<exists>m. build_adjacency_matrix tasks = Inr m \<and>
         (\<forall>t \<in> set tasks. id_of t \<in> no_succ tasks \<longrightarrow>
            m ! nat (id_of t) ! (length tasks + 1) \<noteq> None)"
    by blast
next
  fix tasks fuel ranks
  assume a: "assign_ranks fuel tasks = Some (Inr ranks)"
  from assign_ranks_keys [OF a]
  show "Max (insert 0 (id_of ` set tasks)) + 1 \<in> keys ranks"
    by simp
  from assign_ranks_omega [OF a]
  show "schedule_omega ranks = Inr (Max (insert 0 (id_of ` set tasks)) + 1)" .
next
  show "build_adjacency_matrix [(2, 1, [])]
     = Inr [[None, None, Some 0], [None, None, None], [None, None, Some 1]]"
    by code_simp
next
  show "assign_ranks 2 [(2, 1, [])] = Some (Inr [(0, 0), (2, 1), (3, 2)])"
    by code_simp
next
  show "compute_schedules [(2, 1, [])] [(0, 0), (2, 1), (3, 2)]
     = Inr ([(0, 0), (2, 0), (3, 1)], [(3, 1), (2, 0)])"
    by code_simp
qed

theorem end_vertex_mismatch_witness:
  "no_succ [(2, 1, [])] = {2} \<and>
   (\<exists>m. build_adjacency_matrix [(2, 1, [])] = Inr m \<and> m ! 2 ! 2 \<noteq> None) \<and>
   assign_ranks 2 [(2, 1, [])] = Some (Inr [(0, 0), (2, 1), (3, 2)]) \<and>
   3 \<in> keys [(0, 0), (2, 1), (3, 2)] \<and>
   schedule_omega [(0, 0), (2, 1), (3, 2)] = Inr 3"
proof -
  have n: "no_succ [(2, 1, [])] = {2}"
    by (auto simp: no_succ_def tasks_with_preds_def)
  have i: "\<forall>t \<in> set [(2, 1, [])]. 0 \<le> id_of t \<and> id_of t \<le> int (length [(2 :: int, 1 :: int, [] :: int list)]) + 1"
    by (simp add: id_of_def)
  have r: "assign_ranks 2 [(2, 1, [])] = Some (Inr [(0, 0), (2, 1), (3, 2)])"
    by code_simp
  from end_vertex_mismatch i
  have "\<exists>m. build_adjacency_matrix [(2, 1, [])] = Inr m \<and>
         (\<forall>t \<in> set [(2, 1, [])]. id_of t \<in> no_succ [(2, 1, [])] \<longrightarrow>
            m ! nat (id_of t) ! (length [(2 :: int, 1 :: int, [] :: int list)] + 1) \<noteq> None)"
    by blast
  then have b: "\<exists>m. build_adjacency_matrix [(2, 1, [])] = Inr m \<and> m ! 2 ! 2 \<noteq> None"
    by (simp add: n id_of_def numeral_2_eq_2)
  from end_vertex_mismatch r
  have "Max (insert 0 (id_of ` set [(2, 1, [])])) + 1 \<in> keys [(0, 0), (2, 1), (3, 2)] \<and>
      schedule_omega [(0, 0), (2, 1), (3, 2)] = Inr (Max (insert 0 (id_of ` set [(2, 1, [])])) + 1)"
    by blast
  then have k: "3 \<in> keys [(0, 0), (2, 1), (3, 2)] \<and> schedule_omega [(0, 0), (2, 1), (3, 2)] = Inr 3"
    by (simp add: id_of_def)
  from n b r k show ?thesis by blast
qed

section \<open>Keys of the date maps\<close>

lemma traverse_length: "traverse f xs = Inr ys \<Longrightarrow> length ys = length xs"
  by (induction xs arbitrary: ys) (auto split: sum.splits)

lemma sorted_by_rank_set: "sorted_by_rank tasks ranks = Inr st \<Longrightarrow> set st = set tasks"
proof -
  assume a: "sorted_by_rank tasks ranks = Inr st"
  then obtain ks where ks: "traverse (\<lambda>x. dict_get ranks (fst x)) tasks = Inr ks"
    and st: "st = map snd (sort_key fst (zip ks tasks))"
    by (auto simp: sorted_by_rank_def split: sum.splits)
  have "set st = snd ` set (zip ks tasks)"
    by (simp add: st)
  also have "\<dots> = set (map snd (zip ks tasks))"
    by simp
  also have "\<dots> = set tasks"
    using traverse_length [OF ks] by (simp only: map_snd_zip)
  finally show ?thesis .
qed

lemma forward_step_keys:
  "forward_step tasks t e = Inr e'
     \<Longrightarrow> keys e' = keys e \<union> (if preds_of t \<noteq> [] \<or> id_of t \<noteq> 0 then {id_of t} else {})"
  by (cases t)
    (auto simp: forward_step.simps keys_update preds_of_def id_of_def split: if_splits sum.splits)

lemma backward_step_keys:
  "backward_step tasks omega t l = Inr l'
     \<Longrightarrow> keys l' = keys l \<union>
           (if id_of t = omega \<and> (\<forall>s \<in> set tasks. id_of t \<notin> set (preds_of s)) then {} else {id_of t})"
  by (cases t)
    (auto simp: backward_step.simps keys_update preds_of_def id_of_def Let_def filter_empty_conv
      split: if_splits sum.splits)

lemma compute_schedules_keys:
  assumes "compute_schedules tasks ranks = Inr (earliest, latest)"
    and "schedule_omega ranks = Inr omega"
  shows "keys earliest = insert 0 (insert omega (id_of ` set tasks))"
    and "keys latest = insert omega (id_of ` set tasks)"
proof -
  from assms obtain st e1 eo lo where
    st: "sorted_by_rank tasks ranks = Inr st"
    and e1: "fold_err (forward_step tasks) st [(0, 0)] = Inr e1"
    and e: "earliest = AList.update omega eo e1"
    and l: "fold_err (backward_step tasks omega) (rev st) (AList.update omega lo []) = Inr latest"
    by (auto simp: compute_schedules_def Let_def split: sum.splits)
  have set_st: "set st = set tasks"
    by (rule sorted_by_rank_set [OF st])
  have "keys e1 = keys [(0, 0)] \<union>
          (\<Union>t\<in>set st. if preds_of t \<noteq> [] \<or> id_of t \<noteq> 0 then {id_of t} else {})"
    by (rule fold_err_keys [OF forward_step_keys e1])
  then have "keys e1 = insert 0 (id_of ` set tasks)"
    by (auto simp: keys_def set_st split: if_splits)
  then show "keys earliest = insert 0 (insert omega (id_of ` set tasks))"
    by (auto simp: e keys_update)
  have "keys latest = keys (AList.update omega lo []) \<union>
          (\<Union>t\<in>set (rev st). if id_of t = omega \<and> (\<forall>s \<in> set tasks. id_of t \<notin> set (preds_of s))
                              then {} else {id_of t})"
    by (rule fold_err_keys [OF backward_step_keys l])
  then show "keys latest = insert omega (id_of ` set tasks)"
    by (auto simp: keys_def set_st split: if_splits)
qed

lemma omega_positive: "0 < Max (insert 0 (id_of ` set tasks)) + 1"
proof -
  have "0 \<le> Max (insert (0::int) (id_of ` set tasks))"
    by (rule Max_ge) auto
  then show ?thesis by simp
qed

lemma omega_above_ids: "t \<in> set tasks \<Longrightarrow> id_of t < Max (insert 0 (id_of ` set tasks)) + 1"
proof -
  assume "t \<in> set tasks"
  then have "id_of t \<le> Max (insert (0::int) (id_of ` set tasks))"
    by (intro Max_ge) auto
  then show ?thesis by simp
qed

text \<open>
  Claim C3. When no task carries the id 0, the latest-date map that \<open>compute_schedules\<close>
  returns for the ranks of \<open>assign_ranks\<close> has no entry for the start vertex 0, while the
  earliest-date map has one: the keys of the latest-date map are the task ids and
  \<open>omega\<close>, nothing else. This holds for the empty task list too.
\<close>

theorem latest_has_no_alpha:
  assumes "\<forall>t \<in> set tasks. id_of t \<noteq> 0"
    and "assign_ranks fuel tasks = Some (Inr ranks)"
    and "compute_schedules tasks ranks = Inr (earliest, latest)"
  shows "map_of latest 0 = None \<and> map_of earliest 0 \<noteq> None \<and>
         keys latest = insert (Max (insert 0 (id_of ` set tasks)) + 1) (id_of ` set tasks)"
proof -
  define omega where "omega = Max (insert 0 (id_of ` set tasks)) + 1"
  have pos: "0 < omega"
    unfolding omega_def by (rule omega_positive)
  have om: "schedule_omega ranks = Inr omega"
    unfolding omega_def by (rule assign_ranks_omega [OF assms(2)])
  note k = compute_schedules_keys [OF assms(3) om]
  have "0 \<notin> keys latest"
    using assms(1) pos by (auto simp: k)
  moreover have "0 \<in> keys earliest"
    by (simp add: k)
  ultimately show ?thesis
    using k(2) by (simp add: keys_def map_of_eq_None_iff omega_def)
qed

theorem latest_has_no_alpha_witness:
  "(1::int) \<noteq> 0 \<and> assign_ranks 2 [(1, 3, [])] = Some (Inr [(0, 0), (1, 1), (2, 2)]) \<and>
   compute_schedules [(1, 3, [])] [(0, 0), (1, 1), (2, 2)]
     = Inr ([(0, 0), (1, 0), (2, 3)], [(2, 3), (1, 0)]) \<and>
   map_of [(2, 3), (1, 0 :: int)] (0 :: int) = None \<and>
   map_of [(0, 0), (1, 0), (2, 3 :: int)] (0 :: int) \<noteq> None"
proof -
  have a: "\<forall>t \<in> set [(1, 3, [])]. id_of t \<noteq> 0"
    by (simp add: id_of_def)
  have b: "assign_ranks 2 [(1, 3, [])] = Some (Inr [(0, 0), (1, 1), (2, 2)])"
    by code_simp
  have c: "compute_schedules [(1, 3, [])] [(0, 0), (1, 1), (2, 2)]
     = Inr ([(0, 0), (1, 0), (2, 3)], [(2, 3), (1, 0)])"
    by code_simp
  from latest_has_no_alpha [OF a b c] b c show ?thesis
    by simp
qed

lemma slack_step_Inr:
  "slack_step earliest latest node s = Inr s' \<Longrightarrow> node \<in> keys latest \<and> node \<in> keys earliest"
  by (auto simp: slack_step_def split: sum.splits dest: dict_get_keys)

lemma slack_step_Inl: "slack_step earliest latest node s = Inl e \<Longrightarrow> e = KeyError"
  by (auto simp: slack_step_def dict_get_Inl split: sum.splits)

lemma fold_slack_step_Inr:
  "fold_err (slack_step earliest latest) nodes s = Inr s'
     \<Longrightarrow> set nodes \<subseteq> keys latest \<inter> keys earliest"
proof (induction nodes arbitrary: s)
  case Nil
  then show ?case by simp
next
  case (Cons n nodes)
  then obtain s1 where s1: "slack_step earliest latest n s = Inr s1"
    "fold_err (slack_step earliest latest) nodes s1 = Inr s'"
    by (cases "slack_step earliest latest n s") auto
  from slack_step_Inr [OF s1(1)] Cons.IH [OF s1(2)] show ?case by simp
qed

lemma fold_slack_step_Inl:
  "fold_err (slack_step earliest latest) nodes s = Inl e \<Longrightarrow> e = KeyError"
proof (induction nodes arbitrary: s)
  case Nil
  then show ?case by simp
next
  case (Cons n nodes)
  then show ?case
    by (cases "slack_step earliest latest n s") (auto dest: slack_step_Inl)
qed

lemma calculate_slacks_Inr:
  assumes "calculate_slacks earliest latest = Inr slacks"
  shows "keys earliest = keys latest"
proof -
  have "set (remdups (map fst earliest @ map fst latest)) \<subseteq> keys latest \<inter> keys earliest"
    by (rule fold_slack_step_Inr) (use assms in \<open>simp add: calculate_slacks_def\<close>)
  then show ?thesis
    by (auto simp: keys_def)
qed

lemma calculate_slacks_Inl: "calculate_slacks earliest latest = Inl e \<Longrightarrow> e = KeyError"
  by (auto simp: calculate_slacks_def dest: fold_slack_step_Inl)

text \<open>
  Claim C2 fails on the code. \<open>calculate_slacks\<close> walks the union of the two key sets and
  reads \<open>latest[node]\<close> at each node; the start vertex 0 is a key of the earliest-date map
  only, so for every task list without a task 0 the call raises KeyError instead of returning
  a slack map.
\<close>

theorem calculate_slacks_raises:
  assumes "\<forall>t \<in> set tasks. id_of t \<noteq> 0"
    and "assign_ranks fuel tasks = Some (Inr ranks)"
    and "compute_schedules tasks ranks = Inr (earliest, latest)"
  shows "calculate_slacks earliest latest = Inl KeyError"
proof (cases "calculate_slacks earliest latest")
  case (Inl e)
  then show ?thesis
    by (simp add: calculate_slacks_Inl)
next
  case (Inr slacks)
  define omega where "omega = Max (insert 0 (id_of ` set tasks)) + 1"
  have pos: "0 < omega"
    unfolding omega_def by (rule omega_positive)
  have om: "schedule_omega ranks = Inr omega"
    unfolding omega_def by (rule assign_ranks_omega [OF assms(2)])
  note k = compute_schedules_keys [OF assms(3) om]
  have "0 \<in> keys latest"
    using calculate_slacks_Inr [OF Inr] k(1) by auto
  with assms(1) pos show ?thesis
    by (auto simp: k)
qed

theorem calculate_slacks_raises_witness:
  "(1::int) \<noteq> 0 \<and> assign_ranks 2 [(1, 3, [])] = Some (Inr [(0, 0), (1, 1), (2, 2)]) \<and>
   compute_schedules [(1, 3, [])] [(0, 0), (1, 1), (2, 2)]
     = Inr ([(0, 0), (1, 0), (2, 3)], [(2, 3), (1, 0)]) \<and>
   calculate_slacks [(0, 0), (1, 0), (2, 3)] [(2, 3), (1, 0)] = Inl KeyError"
proof -
  have a: "\<forall>t \<in> set [(1, 3, [])]. id_of t \<noteq> 0"
    by (simp add: id_of_def)
  have b: "assign_ranks 2 [(1, 3, [])] = Some (Inr [(0, 0), (1, 1), (2, 2)])"
    by code_simp
  have c: "compute_schedules [(1, 3, [])] [(0, 0), (1, 1), (2, 2)]
     = Inr ([(0, 0), (1, 0), (2, 3)], [(2, 3), (1, 0)])"
    by code_simp
  from calculate_slacks_raises [OF a b c] b c show ?thesis
    by simp
qed

text \<open>
  Claim C1 on the code. For the scenario the ranks, the earliest dates and the latest dates
  of the tasks and of \<open>omega\<close> are the expected ones, but the latest-date map has no entry
  for the start vertex and \<open>calculate_slacks\<close> raises KeyError: no slack map and no critical
  list are produced. On the slack map the claim expects, the ordering by (rank, id) does give
  \<open>[0, 1, 3, 4, 5]\<close>.
\<close>

theorem scenario_pipeline:
  "assign_ranks (Suc (Suc fuel)) scenario
     = Some (Inr [(0, 0), (1, 1), (2, 2), (3, 2), (4, 3), (5, 4)]) \<and>
   compute_schedules scenario [(0, 0), (1, 1), (2, 2), (3, 2), (4, 3), (5, 4)]
     = Inr ([(0, 0), (1, 0), (2, 3), (3, 3), (4, 7), (5, 8)],
            [(5, 8), (4, 7), (3, 3), (2, 5), (1, 0)]) \<and>
   calculate_slacks [(0, 0), (1, 0), (2, 3), (3, 3), (4, 7), (5, 8)]
                    [(5, 8), (4, 7), (3, 3), (2, 5), (1, 0)] = Inl KeyError \<and>
   critical_nodes_sorted [(0, 0), (1, 0), (2, 2), (3, 0), (4, 0), (5, 0)]
                    [(0, 0), (1, 1), (2, 2), (3, 2), (4, 3), (5, 4)] = [0, 1, 3, 4, 5]"
proof -
  have a: "assign_ranks (Suc (Suc fuel)) scenario
     = Some (Inr [(0, 0), (1, 1), (2, 2), (3, 2), (4, 3), (5, 4)])"
    by (simp add: scenario_def assign_ranks_def ranks_omega_def init_ranks_def py_max_def
        rank_pass_def rank_step.simps omega_step_def dict_get_def)
  have b: "compute_schedules scenario [(0, 0), (1, 1), (2, 2), (3, 2), (4, 3), (5, 4)]
     = Inr ([(0, 0), (1, 0), (2, 3), (3, 3), (4, 7), (5, 8)],
            [(5, 8), (4, 7), (3, 3), (2, 5), (1, 0)])"
    unfolding scenario_def by code_simp
  have c: "calculate_slacks [(0, 0), (1, 0), (2, 3), (3, 3), (4, 7), (5, 8)]
                    [(5, 8), (4, 7), (3, 3), (2, 5), (1, 0)] = Inl KeyError"
    by code_simp
  have d: "critical_nodes_sorted [(0, 0), (1, 0), (2, 2), (3, 0), (4, 0), (5, 0)]
                    [(0, 0), (1, 1), (2, 2), (3, 2), (4, 3), (5, 4)] = [0, 1, 3, 4, 5]"
    by code_simp
  from a b c d show ?thesis by simp
qed

section \<open>The fixpoint of the rank loop\<close>

lemma dict_get_val: "k \<in> keys d \<Longrightarrow> dict_get d k = Inr (val d k)"
  by (cases "map_of d k") (auto simp: dict_get_def val_def keys_def map_of_eq_None_iff)

lemma dict_get_InrD: "dict_get d k = Inr v \<Longrightarrow> k \<in> keys d \<and> v = val d k"
  using dict_get_keys [of d k v] dict_get_val [of k d] by auto

lemma map_of_val: "k \<in> keys d \<Longrightarrow> map_of d k = Some (val d k)"
  by (cases "map_of d k") (auto simp: val_def keys_def map_of_eq_None_iff)

lemma val_update: "val (AList.update k v d) k' = (if k' = k then v else val d k')"
  by (simp add: val_def update_conv')

lemma traverse_dict_get:
  "traverse (dict_get d) ps = Inr rs \<longleftrightarrow> set ps \<subseteq> keys d \<and> rs = map (val d) ps"
proof (induction ps arbitrary: rs)
  case Nil
  then show ?case by auto
next
  case (Cons p ps)
  show ?case
  proof (cases "dict_get d p")
    case (Inl e)
    then have "p \<notin> keys d"
      by (simp add: dict_get_Inl)
    then show ?thesis
      by (simp add: Inl)
  next
    case (Inr v)
    from dict_get_InrD [OF Inr] have "p \<in> keys d" "v = val d p"
      by simp_all
    then show ?thesis
      using Cons [of "tl rs"] by (cases "traverse (dict_get d) ps") (auto simp: Inr)
  qed
qed

lemma py_max_Inr: "py_max xs = Inr m \<longleftrightarrow> xs \<noteq> [] \<and> m = Max (set xs)"
  by (auto simp: py_max_def)

lemma py_min_Inr: "py_min xs = Inr m \<longleftrightarrow> xs \<noteq> [] \<and> m = Min (set xs)"
  by (auto simp: py_min_def)

lemma rank_step_False:
  assumes "rank_step t (r, c) = Inr (r', False)"
  shows "r' = r \<and> \<not> c"
  using assms
  by (cases t) (auto simp: rank_step.simps Let_def split: if_splits sum.splits)

lemma rank_step_stable:
  assumes "rank_step (t, d, ps) (r, False) = Inr (r, False)"
  shows "ps \<noteq> [] \<Longrightarrow> set ps \<subseteq> keys r \<and> t \<in> keys r \<and> (\<forall>p \<in> set ps. val r p < val r t)"
    and "ps = [] \<Longrightarrow> t \<noteq> 0 \<Longrightarrow> t \<in> keys r \<and> val r t \<noteq> 0"
proof -
  assume ps: "ps \<noteq> []"
  with assms obtain rs m rt where rs: "traverse (dict_get r) ps = Inr rs"
    and m: "py_max rs = Inr m" and rt: "dict_get r t = Inr rt" and le: "\<not> m + 1 > rt"
    by (auto simp: rank_step.simps Let_def split: if_splits sum.splits)
  from rs have sub: "set ps \<subseteq> keys r" and rs': "rs = map (val r) ps"
    by (simp_all add: traverse_dict_get)
  from m rs' ps have "m = Max (val r ` set ps)"
    by (simp add: py_max_Inr)
  then have "\<forall>p \<in> set ps. val r p \<le> m"
    by simp
  with le dict_get_InrD [OF rt] sub
  show "set ps \<subseteq> keys r \<and> t \<in> keys r \<and> (\<forall>p \<in> set ps. val r p < val r t)"
    by fastforce
next
  assume "ps = []" "t \<noteq> 0"
  with assms show "t \<in> keys r \<and> val r t \<noteq> 0"
    by (auto simp: rank_step.simps split: if_splits sum.splits dest: dict_get_InrD)
qed

lemma fold_rank_step_False:
  "fold_err rank_step ts (r, c) = Inr (r', False)
     \<Longrightarrow> r' = r \<and> \<not> c \<and> (\<forall>t \<in> set ts. rank_step t (r, False) = Inr (r, False))"
proof (induction ts arbitrary: r c)
  case Nil
  then show ?case by simp
next
  case (Cons t ts)
  then obtain r1 c1 where s1: "rank_step t (r, c) = Inr (r1, c1)"
    and f1: "fold_err rank_step ts (r1, c1) = Inr (r', False)"
    by (cases "rank_step t (r, c)") auto
  from Cons.IH [OF f1] have a: "r' = r1" "\<not> c1"
    "\<forall>t \<in> set ts. rank_step t (r1, False) = Inr (r1, False)"
    by auto
  from s1 a(2) rank_step_False [of t r c r1] have b: "r1 = r" "\<not> c"
    by auto
  with a s1 show ?case by auto
qed

lemma entry_val:
  assumes "distinct (map fst r)"
  shows "(k, v) \<in> set r \<longleftrightarrow> k \<in> keys r \<and> val r k = v"
proof
  assume "(k, v) \<in> set r"
  with assms have "map_of r k = Some v"
    by simp
  moreover from \<open>(k, v) \<in> set r\<close> have "k \<in> keys r"
    by (auto simp: keys_def intro: rev_image_eqI)
  ultimately show "k \<in> keys r \<and> val r k = v"
    by (simp add: val_def)
next
  assume "k \<in> keys r \<and> val r k = v"
  then have "map_of r k = Some v"
    using map_of_val [of k r] by simp
  then show "(k, v) \<in> set r"
    by (rule map_of_SomeD)
qed

lemma values_except:
  assumes "distinct (map fst r)"
  shows "set (map snd (filter (\<lambda>(t, x). t \<noteq> omega) r)) = val r ` (keys r - {omega})"
proof (rule set_eqI)
  fix v
  have "v \<in> set (map snd (filter (\<lambda>(t, x). t \<noteq> omega) r))
          \<longleftrightarrow> (\<exists>k. (k, v) \<in> set r \<and> k \<noteq> omega)"
    by force
  also have "\<dots> \<longleftrightarrow> (\<exists>k. k \<in> keys r \<and> val r k = v \<and> k \<noteq> omega)"
    by (simp add: entry_val [OF assms])
  also have "\<dots> \<longleftrightarrow> v \<in> val r ` (keys r - {omega})"
    by auto
  finally show "v \<in> set (map snd (filter (\<lambda>(t, x). t \<noteq> omega) r))
          \<longleftrightarrow> v \<in> val r ` (keys r - {omega})" .
qed

lemma omega_step_False:
  assumes "omega_step omega (r, c) = Inr (r', False)"
  shows "r' = r \<and> \<not> c"
  using assms by (auto simp: omega_step_def Let_def split: if_splits sum.splits)

lemma omega_step_stable:
  assumes "omega_step omega (r, False) = Inr (r, False)" and "distinct (map fst r)"
  shows "omega \<in> keys r \<and> keys r - {omega} \<noteq> {} \<and> val r omega = Max (val r ` (keys r - {omega})) + 1"
proof -
  from assms(1) obtain m ro where m: "py_max (map snd (filter (\<lambda>(t, x). t \<noteq> omega) r)) = Inr m"
    and ro: "dict_get r omega = Inr ro" and eq: "m + 1 = ro"
    by (auto simp: omega_step_def Let_def split: if_splits sum.splits)
  let ?vs = "map snd (filter (\<lambda>(t, x). t \<noteq> omega) r)"
  from m have "?vs \<noteq> []" and m': "m = Max (set ?vs)"
    by (simp_all add: py_max_Inr)
  then have "set ?vs \<noteq> {}"
    by (simp only: set_empty not_False_eq_True)
  then have ne: "keys r - {omega} \<noteq> {}"
    unfolding values_except [OF assms(2)] by blast
  from m' have "m = Max (val r ` (keys r - {omega}))"
    unfolding values_except [OF assms(2)] .
  with eq dict_get_InrD [OF ro] ne show ?thesis
    by simp
qed

lemma rank_pass_False:
  assumes "rank_pass tasks omega r = Inr (r', False)"
  shows "r' = r"
proof -
  from assms obtain r1 c1 where f: "fold_err rank_step tasks (r, False) = Inr (r1, c1)"
    and o: "omega_step omega (r1, c1) = Inr (r', False)"
    by (auto simp: rank_pass_def split: sum.splits)
  from omega_step_False [OF o] have "r' = r1" "\<not> c1" by auto
  with f fold_rank_step_False [of tasks r False r1] show ?thesis by simp
qed

lemma rank_pass_stable:
  assumes "rank_pass tasks omega r = Inr (r, False)"
  shows "\<forall>t \<in> set tasks. rank_step t (r, False) = Inr (r, False)"
    and "omega_step omega (r, False) = Inr (r, False)"
proof -
  from assms obtain r1 c1 where f: "fold_err rank_step tasks (r, False) = Inr (r1, c1)"
    and o: "omega_step omega (r1, c1) = Inr (r, False)"
    by (auto simp: rank_pass_def split: sum.splits)
  from omega_step_False [OF o] have e: "r = r1" "\<not> c1" by auto
  with f fold_rank_step_False [of tasks r False r1]
  show "\<forall>t \<in> set tasks. rank_step t (r, False) = Inr (r, False)" by simp
  from o e show "omega_step omega (r, False) = Inr (r, False)" by simp
qed

lemma rank_loop_fixpoint:
  "rank_loop fuel tasks omega r = Some (Inr r') \<Longrightarrow> rank_pass tasks omega r' = Inr (r', False)"
proof (induction fuel arbitrary: r)
  case 0
  then show ?case by simp
next
  case (Suc fuel)
  show ?case
  proof (cases "rank_pass tasks omega r")
    case (Inl e)
    with Suc.prems show ?thesis by simp
  next
    case (Inr s)
    obtain r1 c1 where s: "s = (r1, c1)" by (cases s)
    show ?thesis
    proof (cases c1)
      case True
      with Suc Inr s show ?thesis by simp
    next
      case False
      with Suc.prems Inr s have "r' = r1" by simp
      with Inr s False rank_pass_False [of tasks omega r r1] show ?thesis by simp
    qed
  qed
qed

lemma fold_err_invariant:
  assumes "\<And>x s s'. x \<in> set xs \<Longrightarrow> P s \<Longrightarrow> f x s = Inr s' \<Longrightarrow> P s'"
    and "P s" and "fold_err f xs s = Inr s'"
  shows "P s'"
  using assms
proof (induction xs arbitrary: s)
  case Nil
  then show ?case by simp
next
  case (Cons x xs)
  from Cons.prems(3) obtain s1 where s1: "f x s = Inr s1" "fold_err f xs s1 = Inr s'"
    by (cases "f x s") auto
  have "P s1"
    using Cons.prems(1) [of x s s1] Cons.prems(2) s1(1) by simp
  moreover have "\<And>y s s'. y \<in> set xs \<Longrightarrow> P s \<Longrightarrow> f y s = Inr s' \<Longrightarrow> P s'"
    using Cons.prems(1) by (meson list.set_intros(2))
  ultimately show ?case
    using s1(2) by (intro Cons.IH [of s1])
qed

lemma rank_step_cases:
  assumes "rank_step (t, d, ps) (r, c) = Inr (r', c')"
  shows "r' = r \<or> (\<exists>v. r' = AList.update t v r \<and> t \<in> keys r \<and> val r t < v)"
proof (cases "ps = []")
  case True
  with assms show ?thesis
    by (auto simp: rank_step.simps split: if_splits sum.splits dest!: dict_get_InrD)
next
  case False
  with assms show ?thesis
    by (auto simp: rank_step.simps Let_def split: if_splits sum.splits dest!: dict_get_InrD)
qed

lemma rank_inv_update:
  assumes "rank_inv tasks r" "k \<in> keys r" "val r k < v" "k = 0 \<longrightarrow> 0 \<in> id_of ` set tasks"
  shows "rank_inv tasks (AList.update k v r)"
proof -
  from assms(1,2) have "0 \<le> val r k"
    by (simp add: rank_inv_def)
  with assms show ?thesis
    by (auto simp: rank_inv_def keys_update val_update distinct_update)
qed

lemma rank_step_inv:
  assumes "t \<in> set tasks" "rank_inv tasks (fst s)" "rank_step t s = Inr s'"
  shows "rank_inv tasks (fst s')"
proof -
  obtain i d ps where t: "t = (i, d, ps)" by (cases t)
  obtain r c where s: "s = (r, c)" by (cases s)
  obtain r' c' where s': "s' = (r', c')" by (cases s')
  have "i \<in> id_of ` set tasks"
    using assms(1) t by (force simp: id_of_def)
  with rank_step_cases [of i d ps r c r' c'] assms(2,3) rank_inv_update [of tasks r i]
  show ?thesis
    by (auto simp: t s s')
qed

lemma omega_step_inv:
  assumes "rank_inv tasks r" "omega \<noteq> 0" "omega_step omega (r, c) = Inr (r', c')"
  shows "rank_inv tasks r'"
proof (cases "r' = r")
  case True
  with assms show ?thesis by simp
next
  case False
  with assms(3) obtain m ro where m: "py_max (map snd (filter (\<lambda>(t, x). t \<noteq> omega) r)) = Inr m"
    and ro: "dict_get r omega = Inr ro" and r': "r' = AList.update omega (m + 1) r"
    by (auto simp: omega_step_def Let_def split: if_splits sum.splits)
  let ?vs = "map snd (filter (\<lambda>(t, x). t \<noteq> omega) r)"
  from assms(1) have d: "distinct (map fst r)"
    by (simp add: rank_inv_def)
  from m have "?vs \<noteq> []" and m': "m = Max (set ?vs)"
    by (simp_all add: py_max_Inr)
  then obtain x where x: "x \<in> set ?vs"
    by (cases ?vs) auto
  then have "x \<in> val r ` (keys r - {omega})"
    unfolding values_except [OF d] .
  with assms(1) have "0 \<le> x"
    by (auto simp: rank_inv_def)
  moreover have "x \<le> m"
    unfolding m' using x by (intro Max_ge) simp_all
  ultimately have "0 \<le> m + 1"
    by simp
  with assms(1,2) show ?thesis
    by (auto simp: r' rank_inv_def keys_update val_update distinct_update)
qed

lemma rank_pass_inv:
  assumes "rank_inv tasks r" "omega \<noteq> 0" "rank_pass tasks omega r = Inr (r', c')"
  shows "rank_inv tasks r'"
proof -
  from assms(3) obtain s1 where f: "fold_err rank_step tasks (r, False) = Inr s1"
    and o: "omega_step omega s1 = Inr (r', c')"
    by (auto simp: rank_pass_def split: sum.splits)
  have "rank_inv tasks (fst s1)"
    by (rule fold_err_invariant [where P = "\<lambda>s. rank_inv tasks (fst s)", OF _ _ f])
      (use assms(1) in \<open>auto intro: rank_step_inv\<close>)
  with o assms(2) omega_step_inv [of tasks "fst s1" omega "snd s1" r' c'] show ?thesis
    by simp
qed

lemma rank_loop_inv:
  "rank_loop fuel tasks omega r = Some (Inr r') \<Longrightarrow> rank_inv tasks r \<Longrightarrow> omega \<noteq> 0
     \<Longrightarrow> rank_inv tasks r'"
proof (induction fuel arbitrary: r)
  case 0
  then show ?case by simp
next
  case (Suc fuel)
  show ?case
  proof (cases "rank_pass tasks omega r")
    case (Inl e)
    with Suc.prems show ?thesis by simp
  next
    case (Inr s)
    obtain r1 c1 where s: "s = (r1, c1)" by (cases s)
    from Inr s Suc.prems(2,3) have i1: "rank_inv tasks r1"
      by (auto intro: rank_pass_inv)
    show ?thesis
    proof (cases c1)
      case True
      with Suc.prems Inr s Suc.IH [of r1] i1 show ?thesis by simp
    next
      case False
      with Suc.prems Inr s i1 show ?thesis by simp
    qed
  qed
qed

lemma init_ranks_zero:
  "distinct (map fst (init_ranks tasks)) \<and> (\<forall>k. val (init_ranks tasks) k = (if k \<in> keys (init_ranks tasks) then 0 else val [] k))"
proof -
  have "distinct (map fst d) \<and> (\<forall>k. val d k = (if k \<in> keys d then 0 else val [] k)) \<Longrightarrow>
        distinct (map fst (fold (\<lambda>t ranks. AList.update (fst t) 0 ranks) tasks d)) \<and>
        (\<forall>k. val (fold (\<lambda>t ranks. AList.update (fst t) 0 ranks) tasks d) k
              = (if k \<in> keys (fold (\<lambda>t ranks. AList.update (fst t) 0 ranks) tasks d) then 0 else val [] k))"
    for d
  proof (induction tasks arbitrary: d)
    case Nil
    then show ?case by simp
  next
    case (Cons t tasks)
    have "distinct (map fst (AList.update (fst t) 0 d)) \<and>
          (\<forall>k. val (AList.update (fst t) 0 d) k
             = (if k \<in> keys (AList.update (fst t) 0 d) then 0 else val [] k))"
      using Cons.prems by (auto simp: distinct_update val_update keys_update)
    from Cons.IH [OF this] show ?case by simp
  qed
  from this [of "[(0, 0)]"] show ?thesis
    by (simp add: init_ranks_def val_def keys_def)
qed

lemma omega_of_positive: "0 < omega_of tasks"
  unfolding omega_of_def by (rule omega_positive)

lemma omega_of_above: "k \<in> insert 0 (id_of ` set tasks) \<Longrightarrow> k < omega_of tasks"
proof -
  assume "k \<in> insert 0 (id_of ` set tasks)"
  then have "k \<le> Max (insert 0 (id_of ` set tasks))"
    by (intro Max_ge) auto
  then show ?thesis by (simp add: omega_of_def)
qed

lemma start_ranks_inv: "rank_inv tasks (AList.update (omega_of tasks) 0 (init_ranks tasks))"
  using init_ranks_zero [of tasks] keys_init_ranks [of tasks]
  by (auto simp: rank_inv_def distinct_update keys_update val_update)

lemma map_of_sort:
  assumes "distinct (map fst r)"
  shows "map_of (sort r) = map_of r"
proof -
  have "distinct (map fst (sort r))"
    using assms by (simp add: distinct_map)
  then show ?thesis
    using assms by (simp add: map_of_inject_set)
qed

lemma assign_ranks_facts:
  assumes "assign_ranks fuel tasks = Some (Inr ranks)"
  shows "keys ranks = insert (omega_of tasks) (insert 0 (id_of ` set tasks))"
    and "\<forall>k \<in> keys ranks. 0 \<le> val ranks k"
    and "0 \<notin> id_of ` set tasks \<longrightarrow> val ranks 0 = 0"
    and "\<forall>t \<in> set tasks. preds_of t \<noteq> [] \<longrightarrow>
           set (preds_of t) \<subseteq> keys ranks \<and> (\<forall>p \<in> set (preds_of t). val ranks p < val ranks (id_of t))"
    and "\<forall>t \<in> set tasks. preds_of t = [] \<and> id_of t \<noteq> 0 \<longrightarrow> val ranks (id_of t) \<noteq> 0"
    and "val ranks (omega_of tasks) = Max (val ranks ` insert 0 (id_of ` set tasks)) + 1"
proof -
  let ?omega = "omega_of tasks"
  from assms obtain r where
    r: "rank_loop fuel tasks ?omega (AList.update ?omega 0 (init_ranks tasks)) = Some (Inr r)"
    and s: "ranks = sort r"
    by (auto simp: assign_ranks_def ranks_omega_eq omega_of_def split: option.splits sum.splits)
  have inv: "rank_inv tasks r"
    using rank_loop_inv [OF r start_ranks_inv] omega_of_positive [of tasks] by simp
  then have d: "distinct (map fst r)"
    by (simp add: rank_inv_def)
  have v: "val ranks = val r"
    by (simp add: fun_eq_iff val_def s map_of_sort [OF d])
  have k: "keys ranks = keys r"
    by (simp add: keys_def s)
  show k': "keys ranks = insert ?omega (insert 0 (id_of ` set tasks))"
    using assign_ranks_keys [OF assms] by (simp add: omega_of_def)
  from inv show "\<forall>k \<in> keys ranks. 0 \<le> val ranks k"
    by (simp add: rank_inv_def v k)
  from inv show "0 \<notin> id_of ` set tasks \<longrightarrow> val ranks 0 = 0"
    by (simp add: rank_inv_def v)
  note fp = rank_pass_stable [OF rank_loop_fixpoint [OF r]]
  show "\<forall>t \<in> set tasks. preds_of t \<noteq> [] \<longrightarrow>
           set (preds_of t) \<subseteq> keys ranks \<and> (\<forall>p \<in> set (preds_of t). val ranks p < val ranks (id_of t))"
  proof (intro ballI impI)
    fix t assume t: "t \<in> set tasks" and ne: "preds_of t \<noteq> []"
    obtain i dur ps where t': "t = (i, dur, ps)" by (cases t)
    from fp(1) t t' have "rank_step (i, dur, ps) (r, False) = Inr (r, False)"
      by auto
    from rank_step_stable(1) [OF this] ne t'
    show "set (preds_of t) \<subseteq> keys ranks \<and> (\<forall>p \<in> set (preds_of t). val ranks p < val ranks (id_of t))"
      by (simp add: v k preds_of_def id_of_def)
  qed
  show "\<forall>t \<in> set tasks. preds_of t = [] \<and> id_of t \<noteq> 0 \<longrightarrow> val ranks (id_of t) \<noteq> 0"
  proof (intro ballI impI)
    fix t assume t: "t \<in> set tasks" and ne: "preds_of t = [] \<and> id_of t \<noteq> 0"
    obtain i dur ps where t': "t = (i, dur, ps)" by (cases t)
    from fp(1) t t' have "rank_step (i, dur, ps) (r, False) = Inr (r, False)"
      by auto
    from rank_step_stable(2) [OF this] ne t'
    show "val ranks (id_of t) \<noteq> 0"
      by (simp add: v preds_of_def id_of_def)
  qed
  have "?omega \<notin> insert 0 (id_of ` set tasks)"
  proof
    assume "?omega \<in> insert 0 (id_of ` set tasks)"
    then have "?omega < ?omega"
      by (rule omega_of_above)
    then show False by simp
  qed
  then have "keys r - {?omega} = insert 0 (id_of ` set tasks)"
    unfolding k [symmetric] k' by blast
  with omega_step_stable [OF fp(2) d]
  show "val ranks ?omega = Max (val ranks ` insert 0 (id_of ` set tasks)) + 1"
    by (simp add: v)
qed

lemma omega_rank_above:
  assumes "assign_ranks fuel tasks = Some (Inr ranks)" and "k \<in> insert 0 (id_of ` set tasks)"
  shows "val ranks k < val ranks (omega_of tasks)"
proof -
  have "val ranks k \<le> Max (val ranks ` insert 0 (id_of ` set tasks))"
    using assms(2) by (intro Max_ge) auto
  then show ?thesis
    by (simp add: assign_ranks_facts(6) [OF assms(1)])
qed

lemma edges_alpha: "t \<in> set tasks \<Longrightarrow> preds_of t = [] \<Longrightarrow> (0, id_of t) \<in> edges tasks"
  unfolding edges_def by blast

lemma edges_pred: "t \<in> set tasks \<Longrightarrow> p \<in> set (preds_of t) \<Longrightarrow> (p, id_of t) \<in> edges tasks"
  unfolding edges_def by blast

lemma edges_cases:
  assumes "(u, v) \<in> edges tasks"
  obtains (alpha) t where "t \<in> set tasks" "preds_of t = []" "u = 0" "v = id_of t"
  | (pred) t where "t \<in> set tasks" "u \<in> set (preds_of t)" "v = id_of t"
  | (omega) t where "t \<in> set tasks" "id_of t \<in> no_succ tasks" "u = id_of t" "v = omega_of tasks"
  using assms unfolding edges_def by blast

lemma alpha_reaches_tasks:
  assumes "assign_ranks fuel tasks = Some (Inr ranks)" and "t \<in> set tasks"
  shows "(0, id_of t) \<in> (edges tasks)\<^sup>+"
  using assms(2)
proof (induction "nat (val ranks (id_of t))" arbitrary: t rule: less_induct)
  case less
  note f = assign_ranks_facts [OF assms(1)]
  show ?case
  proof (cases "preds_of t = []")
    case True
    with less.prems have "(0, id_of t) \<in> edges tasks"
      by (simp add: edges_alpha)
    then show ?thesis ..
  next
    case False
    then obtain p where p: "p \<in> set (preds_of t)"
      by (cases "preds_of t") auto
    with less.prems have e: "(p, id_of t) \<in> edges tasks"
      by (simp add: edges_pred)
    from f(4) less.prems False p have pk: "p \<in> keys ranks" and lt: "val ranks p < val ranks (id_of t)"
      by auto
    have "id_of t \<in> insert 0 (id_of ` set tasks)"
      using less.prems by simp
    from omega_rank_above [OF assms(1) this] lt have "p \<noteq> omega_of tasks"
      by auto
    with pk have "p = 0 \<or> p \<in> id_of ` set tasks"
      by (auto simp: f(1))
    then show ?thesis
    proof
      assume "p = 0"
      with e show ?thesis by auto
    next
      assume "p \<in> id_of ` set tasks"
      then obtain t' where t': "t' \<in> set tasks" "p = id_of t'"
        by auto
      have "0 \<le> val ranks p"
        using f(2) pk by simp
      with lt have "nat (val ranks (id_of t')) < nat (val ranks (id_of t))"
        by (simp add: t'(2))
      from less.hyps [OF this t'(1)] e show ?thesis
        by (auto simp: t'(2))
    qed
  qed
qed

text \<open>
  Claim C7. When \<open>assign_ranks\<close> returns a rank map for a task list whose graph is acyclic,
  the rank strictly increases along every arc: from the start vertex to a task without
  predecessor, from a predecessor to its task, and from a task without successor to the end
  vertex. Both ends of every arc have a rank.
\<close>

theorem ranks_increase_along_edges:
  assumes "assign_ranks fuel tasks = Some (Inr ranks)" and "acyclic (edges tasks)"
  shows "\<forall>(u, v) \<in> edges tasks.
           \<exists>ru rv. map_of ranks u = Some ru \<and> map_of ranks v = Some rv \<and> ru < rv"
proof -
  note f = assign_ranks_facts [OF assms(1)]
  have no0: "0 \<notin> id_of ` set tasks"
  proof
    assume "0 \<in> id_of ` set tasks"
    then obtain t where "t \<in> set tasks" "id_of t = 0"
      by auto
    with alpha_reaches_tasks [OF assms(1), of t] have "(0, 0) \<in> (edges tasks)\<^sup>+"
      by simp
    with assms(2) show False
      by (simp add: acyclic_def)
  qed
  have goal: "u \<in> keys ranks \<and> v \<in> keys ranks \<and> val ranks u < val ranks v"
    if uv: "(u, v) \<in> edges tasks" for u v
  proof -
    from uv show ?thesis
    proof (cases rule: edges_cases)
      case (alpha t)
      with no0 have "id_of t \<noteq> 0"
        by force
      with f(5) alpha have "val ranks (id_of t) \<noteq> 0"
        by simp
      moreover have "id_of t \<in> keys ranks"
        using alpha(1) by (simp add: f(1))
      ultimately have "0 < val ranks (id_of t)"
        using f(2) by force
      with f(3) no0 alpha \<open>id_of t \<in> keys ranks\<close> show ?thesis
        by (simp add: f(1))
    next
      case (pred t)
      then have "preds_of t \<noteq> []"
        by auto
      with f(4) pred show ?thesis
        by (auto simp: f(1))
    next
      case (omega t)
      with omega_rank_above [OF assms(1), of "id_of t"] show ?thesis
        by (simp add: f(1))
    qed
  qed
  show ?thesis
  proof (intro ballI, clarify)
    fix u v assume "(u, v) \<in> edges tasks"
    from goal [OF this] show "\<exists>ru rv. map_of ranks u = Some ru \<and> map_of ranks v = Some rv \<and> ru < rv"
      by (auto simp: map_of_val)
  qed
qed

lemma increasing_acyclic:
  assumes "\<And>a b. (a, b) \<in> r \<Longrightarrow> a < (b :: int)"
  shows "acyclic r"
proof -
  have "a < b" if "(a, b) \<in> r\<^sup>+" for a b
    using that by (induction rule: trancl.induct) (auto dest: assms)
  then show ?thesis
    by (fastforce simp: acyclic_def)
qed

lemma edges_scenario: "edges scenario = {(0, 1), (1, 2), (1, 3), (2, 4), (3, 4), (4, 5)}"
proof -
  have n: "no_succ scenario = {4}"
    by (auto simp: no_succ_def tasks_with_preds_def scenario_def)
  have o: "omega_of scenario = 5"
    by (simp add: omega_of_def scenario_def id_of_def)
  show ?thesis
    unfolding edges_def n o by (auto simp: scenario_def id_of_def preds_of_def)
qed

lemma acyclic_scenario: "acyclic (edges scenario)"
  by (rule increasing_acyclic) (auto simp: edges_scenario)

theorem ranks_increase_along_edges_witness:
  "assign_ranks 2 scenario = Some (Inr [(0, 0), (1, 1), (2, 2), (3, 2), (4, 3), (5, 4)]) \<and>
   acyclic (edges scenario) \<and> (2, 4) \<in> edges scenario \<and>
   (\<exists>ru rv. map_of [(0, 0), (1, 1), (2, 2), (3, 2), (4, 3), (5, 4 :: int)] (2 :: int) = Some ru \<and>
      map_of [(0, 0), (1, 1), (2, 2), (3, 2), (4, 3), (5, 4 :: int)] (4 :: int) = Some rv \<and> ru < rv)"
proof -
  have a: "assign_ranks 2 scenario = Some (Inr [(0, 0), (1, 1), (2, 2), (3, 2), (4, 3), (5, 4)])"
    unfolding scenario_def by code_simp
  have b: "acyclic (edges scenario)"
    by (rule acyclic_scenario)
  have c: "(2, 4) \<in> edges scenario"
    by (simp add: edges_scenario)
  from ranks_increase_along_edges [OF a b] c a b show ?thesis
    by fastforce
qed

section \<open>The forward and the backward pass\<close>

lemma traverse_map: "traverse f xs = Inr ys \<longleftrightarrow> map f xs = map Inr ys"
proof (induction xs arbitrary: ys)
  case Nil
  then show ?case by auto
next
  case (Cons x xs)
  show ?case
  proof (cases "f x")
    case (Inl e)
    then show ?thesis by (cases ys) auto
  next
    case (Inr y)
    show ?thesis
    proof (cases "traverse f xs")
      case (Inl e)
      with Cons [of "tl ys"] Inr show ?thesis
        by (cases ys) auto
    next
      case r: (Inr zs)
      with Cons [of zs] Cons [of "tl ys"] Inr show ?thesis
        by (cases ys) auto
    qed
  qed
qed

lemma traverse_lookup:
  assumes "traverse (\<lambda>x. dict_get d (g x)) xs = Inr ks"
  shows "ks = map (\<lambda>x. val d (g x)) xs" and "g ` set xs \<subseteq> keys d"
proof -
  from assms have m: "map (\<lambda>x. dict_get d (g x)) xs = map Inr ks"
    by (simp add: traverse_map)
  then have len: "length ks = length xs"
    by (metis length_map)
  have each: "dict_get d (g (xs ! i)) = Inr (ks ! i)" if "i < length xs" for i
    using that len arg_cong [OF m, of "\<lambda>l. l ! i"] by simp
  show "ks = map (\<lambda>x. val d (g x)) xs"
    by (rule nth_equalityI) (use len each in \<open>auto dest!: dict_get_InrD\<close>)
  have "g (xs ! i) \<in> keys d" if "i < length xs" for i
    using dict_get_InrD [OF each [OF that]] by simp
  then show "g ` set xs \<subseteq> keys d"
    by (auto simp: in_set_conv_nth)
qed

lemma insort_key_decorate:
  "insort_key fst (k x, x) (map (\<lambda>y. (k y, y)) ys) = map (\<lambda>y. (k y, y)) (insort_key k x ys)"
  by (induction ys) auto

lemma sort_key_decorate:
  "sort_key fst (map (\<lambda>y. (k y, y)) xs) = map (\<lambda>y. (k y, y)) (sort_key k xs)"
  by (induction xs) (auto simp: insort_key_decorate)

lemma sorted_by_rank_eq:
  assumes "sorted_by_rank tasks ranks = Inr st"
  shows "st = sort_key (\<lambda>x. val ranks (id_of x)) tasks"
proof -
  from assms obtain ks where ks: "traverse (\<lambda>x. dict_get ranks (fst x)) tasks = Inr ks"
    and st: "st = map snd (sort_key fst (zip ks tasks))"
    by (auto simp: sorted_by_rank_def split: sum.splits)
  have "zip ks tasks = map (\<lambda>y. (val ranks (id_of y), y)) tasks"
    unfolding traverse_lookup(1) [OF ks] id_of_def by (induction tasks) auto
  then show ?thesis
    by (simp add: st sort_key_decorate comp_def)
qed

lemma get_duration_distinct:
  "distinct (map id_of tasks) \<Longrightarrow> (t, dur, ps) \<in> set tasks \<Longrightarrow> get_duration t tasks = dur"
proof (induction tasks)
  case Nil
  then show ?case by simp
next
  case (Cons x tasks)
  obtain i d qs where x: "x = (i, d, qs)" by (cases x)
  from Cons show ?case
    by (auto simp: x id_of_def intro: rev_image_eqI)
qed

lemma forward_step_cases:
  assumes "forward_step tasks (t, dur, ps) e = Inr e'"
  shows "(ps \<noteq> [] \<and> set ps \<subseteq> keys e \<and>
           e' = AList.update t (Max ((\<lambda>p. val e p + get_duration p tasks) ` set ps)) e) \<or>
         (ps = [] \<and> t \<noteq> 0 \<and> e' = AList.update t (val e 0) e) \<or>
         (ps = [] \<and> t = 0 \<and> e' = e)"
proof (cases "ps = []")
  case True
  with assms show ?thesis
    by (auto simp: forward_step.simps split: if_splits sum.splits dest!: dict_get_InrD)
next
  case False
  with assms obtain xs v where
    xs: "traverse (\<lambda>p. case dict_get e p of Inl x \<Rightarrow> Inl x
                        | Inr ep \<Rightarrow> Inr (ep + get_duration p tasks)) ps = Inr xs"
    and v: "py_max xs = Inr v" and e': "e' = AList.update t v e"
    by (auto simp: forward_step.simps split: if_splits sum.splits)
  from xs have m: "map (\<lambda>p. case dict_get e p of Inl x \<Rightarrow> Inl x
                        | Inr ep \<Rightarrow> Inr (ep + get_duration p tasks)) ps = map Inr xs"
    by (simp add: traverse_map)
  then have len: "length xs = length ps"
    by (metis length_map)
  have each: "ps ! i \<in> keys e \<and> xs ! i = val e (ps ! i) + get_duration (ps ! i) tasks"
    if "i < length ps" for i
    using that len arg_cong [OF m, of "\<lambda>l. l ! i"]
    by (auto split: sum.splits dest!: dict_get_InrD)
  have sub: "set ps \<subseteq> keys e"
    using each by (auto simp: in_set_conv_nth)
  have "xs = map (\<lambda>p. val e p + get_duration p tasks) ps"
    by (rule nth_equalityI) (use len each in auto)
  with v False have "v = Max ((\<lambda>p. val e p + get_duration p tasks) ` set ps)"
    by (simp add: py_max_Inr)
  with False sub e' show ?thesis by simp
qed

lemma forward_fold:
  assumes rk: "\<forall>s \<in> set tasks. \<forall>p \<in> set (preds_of s). val ranks p < val ranks (id_of s)"
  shows "D \<union> set xs \<subseteq> set tasks \<Longrightarrow>
         \<forall>s \<in> D. \<forall>x \<in> set xs. val ranks (id_of s) \<le> val ranks (id_of x) \<Longrightarrow>
         sorted (map (\<lambda>x. val ranks (id_of x)) xs) \<Longrightarrow>
         distinct (map id_of xs) \<Longrightarrow> id_of ` D \<inter> id_of ` set xs = {} \<Longrightarrow>
         forward_ok tasks D e \<Longrightarrow> fold_err (forward_step tasks) xs e = Inr e' \<Longrightarrow>
         forward_ok tasks (D \<union> set xs) e'"
proof (induction xs arbitrary: D e)
  case Nil
  then show ?case by simp
next
  case (Cons x xs)
  obtain t dur ps where x: "x = (t, dur, ps)" by (cases x)
  from Cons.prems(7) obtain e1 where e1: "forward_step tasks (t, dur, ps) e = Inr e1"
    and rest: "fold_err (forward_step tasks) xs e1 = Inr e'"
    by (cases "forward_step tasks x e") (auto simp: x)
  have xin: "x \<in> set tasks"
    using Cons.prems(1) by simp
  have notd: "t \<notin> id_of ` D"
    using Cons.prems(5) by (auto simp: x id_of_def)
  have pred_not_t: "p \<noteq> t" if "s \<in> insert x D" "p \<in> set (preds_of s)" for s p
  proof
    assume "p = t"
    from that(1) Cons.prems(1) have "s \<in> set tasks" by auto
    with rk that(2) have "val ranks p < val ranks (id_of s)" by simp
    moreover from that(1) Cons.prems(2) have "val ranks (id_of s) \<le> val ranks (id_of x)"
      by auto
    ultimately show False
      using \<open>p = t\<close> by (simp add: x id_of_def)
  qed
  have ok1: "forward_ok tasks (insert x D) e1"
    unfolding forward_ok_def
  proof (intro ballI)
    fix s p assume s: "s \<in> insert x D" and p: "p \<in> set (preds_of s)"
    have pt: "p \<noteq> t" by (rule pred_not_t [OF s p])
    show "val e1 p + get_duration p tasks \<le> val e1 (id_of s)"
    proof (cases "s = x")
      case True
      with p have ne: "ps \<noteq> []" and pin: "p \<in> set ps"
        by (auto simp: x preds_of_def)
      with forward_step_cases [OF e1]
      have e1': "e1 = AList.update t (Max ((\<lambda>p. val e p + get_duration p tasks) ` set ps)) e"
        by simp
      have "val e p + get_duration p tasks \<le> Max ((\<lambda>p. val e p + get_duration p tasks) ` set ps)"
        using pin by (intro Max_ge) auto
      with pt show ?thesis
        by (simp add: True x id_of_def e1' val_update)
    next
      case False
      with s have sD: "s \<in> D" by simp
      with notd have "id_of s \<noteq> t" by auto
      moreover from Cons.prems(6) sD p
      have "val e p + get_duration p tasks \<le> val e (id_of s)"
        by (simp add: forward_ok_def)
      ultimately show ?thesis
        using forward_step_cases [OF e1] pt by (auto simp: val_update)
    qed
  qed
  have "forward_ok tasks (insert x D \<union> set xs) e'"
  proof (rule Cons.IH [OF _ _ _ _ _ ok1 rest])
    show "insert x D \<union> set xs \<subseteq> set tasks"
      using Cons.prems(1) by auto
    show "\<forall>s \<in> insert x D. \<forall>y \<in> set xs. val ranks (id_of s) \<le> val ranks (id_of y)"
      using Cons.prems(2,3) by auto
    show "sorted (map (\<lambda>x. val ranks (id_of x)) xs)"
      using Cons.prems(3) by simp
    show "distinct (map id_of xs)"
      using Cons.prems(4) by simp
    show "id_of ` insert x D \<inter> id_of ` set xs = {}"
      using Cons.prems(4,5) by auto
  qed
  then show ?case by simp
qed

lemma no_succ_iff: "i \<in> no_succ tasks \<longleftrightarrow> i \<in> id_of ` set tasks \<and> (\<forall>s \<in> set tasks. i \<notin> set (preds_of s))"
  by (auto simp: no_succ_def tasks_with_preds_def fold_add_preds id_of_def)

lemma succs_set:
  "set (map fst (filter (\<lambda>(tid, d, pds). t \<in> set pds) tasks))
     = {id_of s | s. s \<in> set tasks \<and> t \<in> set (preds_of s)}"
proof -
  have "set (filter (\<lambda>(tid, d, pds). t \<in> set pds) tasks) = {s \<in> set tasks. t \<in> set (preds_of s)}"
    by (auto simp: preds_of_def)
  then show ?thesis
    unfolding set_map id_of_def by blast
qed

lemma backward_step_cases:
  assumes "backward_step tasks omega (t, dur, ps) l = Inr l'"
  shows "((\<forall>s \<in> set tasks. t \<notin> set (preds_of s)) \<and> t \<noteq> omega \<and> omega \<in> keys l \<and>
            l' = AList.update t (val l omega - dur) l) \<or>
         ((\<forall>s \<in> set tasks. t \<notin> set (preds_of s)) \<and> t = omega \<and> l' = l) \<or>
         ((\<exists>s \<in> set tasks. t \<in> set (preds_of s)) \<and>
            (\<forall>s \<in> set tasks. t \<in> set (preds_of s) \<longrightarrow> id_of s \<in> keys l) \<and>
            (\<exists>s \<in> set tasks. t \<in> set (preds_of s) \<and> l' = AList.update t (val l (id_of s) - dur) l))"
proof -
  let ?succs = "map fst (filter (\<lambda>(tid, d, pds). t \<in> set pds) tasks)"
  have ss: "set ?succs = {id_of s | s. s \<in> set tasks \<and> t \<in> set (preds_of s)}"
    by (rule succs_set)
  show ?thesis
  proof (cases "?succs = []")
    case True
    then have "set ?succs = {}"
      by (simp only: set_empty)
    then have none: "\<forall>s \<in> set tasks. t \<notin> set (preds_of s)"
      unfolding ss by blast
    from assms True have "(t \<noteq> omega \<and> omega \<in> keys l \<and> l' = AList.update t (val l omega - dur) l)
        \<or> (t = omega \<and> l' = l)"
      by (auto simp: backward_step.simps Let_def split: if_splits sum.splits dest!: dict_get_InrD)
    with none show ?thesis by blast
  next
    case False
    with assms obtain ls v where ls: "traverse (dict_get l) ?succs = Inr ls"
      and v: "py_min ls = Inr v" and l': "l' = AList.update t (v - dur) l"
      by (auto simp: backward_step.simps Let_def split: if_splits sum.splits)
    from ls have sub: "set ?succs \<subseteq> keys l" and ls': "ls = map (val l) ?succs"
      by (simp_all only: traverse_dict_get)
    from v have "v = Min (set ls)"
      by (simp add: py_min_Inr)
    moreover have "set ls = val l ` set ?succs"
      unfolding ls' by (rule set_map)
    ultimately have "v = Min (val l ` set ?succs)"
      by (simp only:)
    moreover have "Min (val l ` set ?succs) \<in> val l ` set ?succs"
      using False by (intro Min_in) (simp_all del: set_map)
    ultimately obtain k where k: "k \<in> set ?succs" "v = val l k"
      by (auto simp del: set_map)
    from k(1) obtain s where s: "s \<in> set tasks" "t \<in> set (preds_of s)" "k = id_of s"
      unfolding ss by blast
    from sub have "\<forall>s \<in> set tasks. t \<in> set (preds_of s) \<longrightarrow> id_of s \<in> keys l"
      unfolding ss by blast
    with s k(2) l' show ?thesis by blast
  qed
qed

lemma backward_step_ok:
  assumes ea: "\<forall>s \<in> set tasks. \<forall>p \<in> set (preds_of s). val e p + get_duration p tasks \<le> val e (id_of s)"
    and eb: "\<forall>t \<in> set tasks. id_of t \<in> no_succ tasks \<longrightarrow>
               val e (id_of t) + get_duration (id_of t) tasks \<le> val e omega"
    and d: "distinct (map id_of tasks)"
    and x: "x \<in> set tasks"
    and ok: "backward_ok e l"
    and step: "backward_step tasks omega x l = Inr l'"
  shows "backward_ok e l'"
proof -
  obtain t dur ps where x': "x = (t, dur, ps)" by (cases x)
  have gd: "get_duration t tasks = dur"
    using get_duration_distinct [OF d] x x' by simp
  from step x' have "backward_step tasks omega (t, dur, ps) l = Inr l'"
    by simp
  from backward_step_cases [OF this] show ?thesis
  proof (elim disjE conjE bexE)
    assume none: "\<forall>s \<in> set tasks. t \<notin> set (preds_of s)" and "omega \<in> keys l"
      and l': "l' = AList.update t (val l omega - dur) l"
    have "id_of x = t"
      by (simp add: x' id_of_def)
    with none x have "id_of x \<in> no_succ tasks"
      unfolding no_succ_iff by blast
    with eb x have "val e t + dur \<le> val e omega"
      using gd by (auto simp: x' id_of_def)
    moreover from ok \<open>omega \<in> keys l\<close> have "val e omega \<le> val l omega"
      by (simp add: backward_ok_def)
    ultimately show ?thesis
      using ok by (auto simp: l' backward_ok_def keys_update val_update)
  next
    assume "l' = l"
    with ok show ?thesis by simp
  next
    fix s assume all: "\<forall>s \<in> set tasks. t \<in> set (preds_of s) \<longrightarrow> id_of s \<in> keys l"
      and s: "s \<in> set tasks" "t \<in> set (preds_of s)"
      and l': "l' = AList.update t (val l (id_of s) - dur) l"
    from ea s have "val e t + dur \<le> val e (id_of s)"
      using gd by auto
    moreover from all s ok have "val e (id_of s) \<le> val l (id_of s)"
      by (simp add: backward_ok_def)
    ultimately show ?thesis
      using ok by (auto simp: l' backward_ok_def keys_update val_update)
  qed
qed

lemma earliest_omega_bound:
  assumes "earliest_omega tasks e = Inr eo" and "t \<in> set tasks" and "id_of t \<in> no_succ tasks"
  shows "val e (id_of t) + get_duration (id_of t) tasks \<le> eo"
proof -
  have mem: "id_of t \<in> set (no_succ_list tasks)"
    using assms(2,3) by (auto simp: no_succ_list_def id_of_def)
  then have ne: "no_succ_list tasks \<noteq> []"
    by auto
  with assms(1) obtain xs where
    xs: "traverse (\<lambda>t. case dict_get e t of Inl x \<Rightarrow> Inl x
                        | Inr et \<Rightarrow> Inr (et + get_duration t tasks)) (no_succ_list tasks) = Inr xs"
    and eo: "py_max xs = Inr eo"
    by (auto simp: earliest_omega_def split: sum.splits)
  let ?f = "\<lambda>t. case dict_get e t of Inl x \<Rightarrow> Inl x | Inr et \<Rightarrow> Inr (et + get_duration t tasks)"
  from xs have m: "map ?f (no_succ_list tasks) = map Inr xs"
    by (simp add: traverse_map)
  then have len: "length xs = length (no_succ_list tasks)"
    by (metis length_map)
  from mem obtain i where i: "i < length (no_succ_list tasks)" "no_succ_list tasks ! i = id_of t"
    by (auto simp: in_set_conv_nth)
  from i len arg_cong [OF m, of "\<lambda>l. l ! i"]
  have "xs ! i = val e (id_of t) + get_duration (id_of t) tasks"
    by (auto split: sum.splits dest!: dict_get_InrD)
  moreover have "xs ! i \<le> Max (set xs)"
    using i len by (intro Max_ge) auto
  moreover have "eo = Max (set xs)"
    using eo by (simp add: py_max_Inr)
  ultimately show ?thesis by simp
qed

lemma schedule_order:
  assumes d: "distinct (map id_of tasks)"
    and a: "assign_ranks fuel tasks = Some (Inr ranks)"
    and c: "compute_schedules tasks ranks = Inr (earliest, latest)"
  shows "backward_ok earliest latest"
proof -
  let ?omega = "omega_of tasks"
  let ?key = "\<lambda>x. val ranks (id_of x)"
  note f = assign_ranks_facts [OF a]
  have om: "schedule_omega ranks = Inr ?omega"
    using assign_ranks_omega [OF a] by (simp add: omega_of_def)
  from c om obtain st e1 eo lo where
    st: "sorted_by_rank tasks ranks = Inr st"
    and e1: "fold_err (forward_step tasks) st [(0, 0)] = Inr e1"
    and eo: "earliest_omega tasks e1 = Inr eo"
    and e: "earliest = AList.update ?omega eo e1"
    and l: "fold_err (backward_step tasks ?omega) (rev st) (AList.update ?omega lo []) = Inr latest"
    and lo: "dict_get earliest ?omega = Inr lo"
    by (auto simp: compute_schedules_def Let_def split: sum.splits)
  have st': "st = sort_key ?key tasks"
    by (rule sorted_by_rank_eq [OF st])
  have rk: "\<forall>s \<in> set tasks. \<forall>p \<in> set (preds_of s). val ranks p < val ranks (id_of s)"
    using f(4) by fastforce
  have "forward_ok tasks ({} \<union> set st) e1"
  proof (rule forward_fold [OF rk _ _ _ _ _ _ e1])
    show "{} \<union> set st \<subseteq> set tasks" by (simp add: st')
    show "sorted (map ?key st)" by (simp add: st')
    show "distinct (map id_of st)"
      using d by (simp add: st' distinct_map)
    show "forward_ok tasks {} [(0, 0)]" by (simp add: forward_ok_def)
  qed simp_all
  then have fo: "forward_ok tasks (set tasks) e1"
    by (simp add: st')
  have id_lt: "id_of s \<noteq> ?omega" if "s \<in> set tasks" for s
    using omega_of_above [of "id_of s" tasks] that by auto
  have ea: "\<forall>s \<in> set tasks. \<forall>p \<in> set (preds_of s).
              val earliest p + get_duration p tasks \<le> val earliest (id_of s)"
  proof (intro ballI)
    fix s p assume s: "s \<in> set tasks" and p: "p \<in> set (preds_of s)"
    from rk s p have "val ranks p < val ranks (id_of s)" by simp
    moreover have "val ranks (id_of s) < val ranks ?omega"
      using s by (intro omega_rank_above [OF a]) simp
    ultimately have "p \<noteq> ?omega" by auto
    with fo s p id_lt [OF s]
    show "val earliest p + get_duration p tasks \<le> val earliest (id_of s)"
      by (simp add: forward_ok_def e val_update)
  qed
  have eb: "\<forall>t \<in> set tasks. id_of t \<in> no_succ tasks \<longrightarrow>
              val earliest (id_of t) + get_duration (id_of t) tasks \<le> val earliest ?omega"
    using earliest_omega_bound [OF eo] id_lt by (simp add: e val_update)
  have lo': "lo = val earliest ?omega"
    using dict_get_InrD [OF lo] by simp
  have init: "backward_ok earliest (AList.update ?omega lo [])"
    by (simp add: backward_ok_def keys_def val_def lo')
  show ?thesis
    by (rule fold_err_invariant [where P = "backward_ok earliest", OF _ init l])
      (rule backward_step_ok [OF ea eb d], simp_all add: st')
qed

lemma calculate_slacks_values:
  assumes "calculate_slacks earliest latest = Inr slacks" and "map_of slacks v = Some s"
  shows "v \<in> keys latest \<and> s = val latest v - val earliest v"
proof -
  define P where "P sl \<longleftrightarrow> (\<forall>k \<in> keys sl. k \<in> keys latest \<and> val sl k = val latest k - val earliest k)"
    for sl
  have step: "P sl'" if "P sl" "slack_step earliest latest node sl = Inr sl'" for node sl sl'
  proof -
    from that(2) obtain lv ev where lv: "dict_get latest node = Inr lv"
      and ev: "dict_get earliest node = Inr ev" and sl': "sl' = AList.update node (lv - ev) sl"
      by (auto simp: slack_step_def split: sum.splits)
    from dict_get_InrD [OF lv] dict_get_InrD [OF ev] that(1) show ?thesis
      by (simp add: P_def sl' keys_update val_update)
  qed
  have "P []"
    by (simp add: P_def keys_def)
  moreover have "fold_err (slack_step earliest latest)
      (remdups (map fst earliest @ map fst latest)) [] = Inr slacks"
    using assms(1) by (simp add: calculate_slacks_def)
  ultimately have "P slacks"
    using step by (rule fold_err_invariant [where P = P, rotated])
  moreover from assms(2) have "v \<in> keys slacks" "s = val slacks v"
    by (auto simp: keys_def val_def dest!: map_of_SomeD intro: rev_image_eqI)
  ultimately show ?thesis by (simp add: P_def)
qed

text \<open>
  Claim C6. Take a task list with pairwise distinct ids (a TaskSet), on which
  \<open>assign_ranks\<close> returns, which it only does when the relaxation reaches a fixpoint, so not
  on a cyclic graph, and on which \<open>compute_schedules\<close> returns. Then every vertex with both
  dates has its latest date at or above its earliest date, and every value of a slack map that
  \<open>calculate_slacks\<close> returns is non-negative. The durations need not be non-negative for
  this.
\<close>

theorem slack_nonnegative:
  assumes "distinct (map id_of tasks)"
    and "assign_ranks fuel tasks = Some (Inr ranks)"
    and "compute_schedules tasks ranks = Inr (earliest, latest)"
  shows "(\<forall>v ev lv. map_of earliest v = Some ev \<and> map_of latest v = Some lv \<longrightarrow> ev \<le> lv) \<and>
         (\<forall>slacks v s. calculate_slacks earliest latest = Inr slacks \<and> map_of slacks v = Some s
            \<longrightarrow> 0 \<le> s)"
proof -
  have ok: "\<forall>k \<in> keys latest. val earliest k \<le> val latest k"
    using schedule_order [OF assms] by (simp add: backward_ok_def)
  have "ev \<le> lv" if "map_of earliest v = Some ev" "map_of latest v = Some lv" for v ev lv
  proof -
    from that(2) have "v \<in> keys latest"
      by (auto simp: keys_def dest!: map_of_SomeD intro: rev_image_eqI)
    with ok that show ?thesis
      by (auto simp: val_def)
  qed
  moreover have "0 \<le> s" if "calculate_slacks earliest latest = Inr slacks" "map_of slacks v = Some s"
    for slacks v s
    using calculate_slacks_values [OF that] ok by auto
  ultimately show ?thesis by blast
qed

theorem slack_nonnegative_witness:
  "distinct (map id_of scenario) \<and>
   assign_ranks 2 scenario = Some (Inr [(0, 0), (1, 1), (2, 2), (3, 2), (4, 3), (5, 4)]) \<and>
   compute_schedules scenario [(0, 0), (1, 1), (2, 2), (3, 2), (4, 3), (5, 4)]
     = Inr ([(0, 0), (1, 0), (2, 3), (3, 3), (4, 7), (5, 8)],
            [(5, 8), (4, 7), (3, 3), (2, 5), (1, 0)]) \<and>
   map_of [(0, 0), (1, 0), (2, 3), (3, 3), (4, 7), (5, 8 :: int)] (2 :: int) = Some 3 \<and>
   map_of [(5, 8), (4, 7), (3, 3), (2, 5), (1, 0 :: int)] (2 :: int) = Some 5 \<and>
   (3 :: int) \<le> 5 \<and>
   distinct (map id_of [(0, 5, []), (1, 2, [])]) \<and>
   assign_ranks 2 [(0, 5, []), (1, 2, [])] = Some (Inr [(0, 0), (1, 1), (2, 2)]) \<and>
   compute_schedules [(0, 5, []), (1, 2, [])] [(0, 0), (1, 1), (2, 2)]
     = Inr ([(0, 0), (1, 0), (2, 5)], [(2, 5), (1, 3), (0, 0)]) \<and>
   calculate_slacks [(0, 0), (1, 0), (2, 5)] [(2, 5), (1, 3), (0, 0)]
     = Inr [(2, 0), (1, 3), (0, 0)] \<and>
   map_of [(2, 0), (1, 3), (0, 0 :: int)] (1 :: int) = Some 3 \<and> (0 :: int) \<le> 3"
proof -
  have d1: "distinct (map id_of scenario)"
    by (simp add: scenario_def id_of_def)
  have a1: "assign_ranks 2 scenario = Some (Inr [(0, 0), (1, 1), (2, 2), (3, 2), (4, 3), (5, 4)])"
    unfolding scenario_def by code_simp
  have c1: "compute_schedules scenario [(0, 0), (1, 1), (2, 2), (3, 2), (4, 3), (5, 4)]
     = Inr ([(0, 0), (1, 0), (2, 3), (3, 3), (4, 7), (5, 8)],
            [(5, 8), (4, 7), (3, 3), (2, 5), (1, 0)])"
    unfolding scenario_def by code_simp
  have d: "distinct (map id_of [(0, 5, []), (1, 2, [])])"
    by (simp add: id_of_def)
  have a: "assign_ranks 2 [(0, 5, []), (1, 2, [])] = Some (Inr [(0, 0), (1, 1), (2, 2)])"
    by code_simp
  have c: "compute_schedules [(0, 5, []), (1, 2, [])] [(0, 0), (1, 1), (2, 2)]
     = Inr ([(0, 0), (1, 0), (2, 5)], [(2, 5), (1, 3), (0, 0)])"
    by code_simp
  have s: "calculate_slacks [(0, 0), (1, 0), (2, 5)] [(2, 5), (1, 3), (0, 0)]
     = Inr [(2, 0), (1, 3), (0, 0)]"
    by code_simp
  from slack_nonnegative [OF d1 a1 c1] slack_nonnegative [OF d a c] d1 a1 c1 d a c s
  show ?thesis
    by simp
qed

section \<open>Cycle detection\<close>

lemma get_cell_square:
  "square n m \<Longrightarrow> i < n \<Longrightarrow> j < n \<Longrightarrow> get_cell m i j = Inr (m ! i ! j)"
  by (auto simp: get_cell_def square_def)

lemma count_arc_square:
  assumes "square n m" "i < n" "j < n" "length ds = n"
  shows "count_arc m i j ds = Inr (if m ! i ! j \<noteq> None then ds[j := ds ! j + 1] else ds)"
  using assms by (auto simp: count_arc_def get_cell_square split: option.splits)

lemma count_row:
  assumes sq: "square n m" and i: "i < n"
  shows "distinct js \<Longrightarrow> set js \<subseteq> {..<n} \<Longrightarrow> length ds = n \<Longrightarrow>
         \<exists>ds'. fold_err (count_arc m i) js ds = Inr ds' \<and> length ds' = n \<and>
           (\<forall>j<n. ds' ! j = ds ! j + (if j \<in> set js \<and> m ! i ! j \<noteq> None then 1 else 0))"
proof (induction js arbitrary: ds)
  case Nil
  then show ?case by simp
next
  case (Cons j js)
  let ?ds1 = "if m ! i ! j \<noteq> None then ds[j := ds ! j + 1] else ds"
  have j: "j < n" using Cons.prems(2) by simp
  have s: "count_arc m i j ds = Inr ?ds1"
    by (rule count_arc_square [OF sq i j Cons.prems(3)])
  have "length ?ds1 = n" using Cons.prems(3) by simp
  from Cons.IH [OF _ _ this] Cons.prems(1,2) obtain ds' where
    f: "fold_err (count_arc m i) js ?ds1 = Inr ds'" and l: "length ds' = n"
    and v: "\<forall>k<n. ds' ! k = ?ds1 ! k + (if k \<in> set js \<and> m ! i ! k \<noteq> None then 1 else 0)"
    by auto
  have "ds' ! k = ds ! k + (if k \<in> set (j # js) \<and> m ! i ! k \<noteq> None then 1 else 0)"
    if "k < n" for k
  proof (cases "k = j")
    case True
    with v that Cons.prems(1,3) show ?thesis by auto
  next
    case False
    with v that Cons.prems(1,3) show ?thesis by auto
  qed
  with f l s show ?case
    by (simp del: count_arc_def)
qed

lemma count_rows:
  assumes sq: "square n m"
  shows "distinct is \<Longrightarrow> set is \<subseteq> {..<n} \<Longrightarrow> length ds = n \<Longrightarrow>
         \<exists>ds'. fold_err (\<lambda>i. fold_err (count_arc m i) [0..<n]) is ds = Inr ds' \<and> length ds' = n \<and>
           (\<forall>j<n. ds' ! j = ds ! j + int (card {i \<in> set is. m ! i ! j \<noteq> None}))"
proof (induction "is" arbitrary: ds)
  case Nil
  then show ?case by simp
next
  case (Cons i "is")
  have i: "i < n" using Cons.prems(2) by simp
  have sub: "set [0..<n] \<subseteq> {..<n}" by auto
  from count_row [OF sq i distinct_upt sub Cons.prems(3)] obtain ds1 where
    r: "fold_err (count_arc m i) [0..<n] ds = Inr ds1" and l1: "length ds1 = n"
    and v1': "\<forall>j<n. ds1 ! j = ds ! j + (if j \<in> set [0..<n] \<and> m ! i ! j \<noteq> None then 1 else 0)"
    by blast
  have v1: "\<forall>j<n. ds1 ! j = ds ! j + (if m ! i ! j \<noteq> None then 1 else 0)"
    using v1' by simp
  from Cons.IH [OF _ _ l1] Cons.prems(1,2) obtain ds' where
    f: "fold_err (\<lambda>i. fold_err (count_arc m i) [0..<n]) is ds1 = Inr ds'" and l: "length ds' = n"
    and v: "\<forall>j<n. ds' ! j = ds1 ! j + int (card {i \<in> set is. m ! i ! j \<noteq> None})"
    by auto
  have "ds' ! j = ds ! j + int (card {k \<in> set (i # is). m ! k ! j \<noteq> None})" if "j < n" for j
  proof (cases "m ! i ! j \<noteq> None")
    case True
    then have "{k \<in> set (i # is). m ! k ! j \<noteq> None} = insert i {k \<in> set is. m ! k ! j \<noteq> None}"
      by auto
    moreover have "i \<notin> {k \<in> set is. m ! k ! j \<noteq> None}"
      using Cons.prems(1) by simp
    ultimately have "card {k \<in> set (i # is). m ! k ! j \<noteq> None}
        = Suc (card {k \<in> set is. m ! k ! j \<noteq> None})"
      by simp
    with v v1 that True show ?thesis by simp
  next
    case False
    then have "{k \<in> set (i # is). m ! k ! j \<noteq> None} = {k \<in> set is. m ! k ! j \<noteq> None}"
      by auto
    with v v1 that False show ?thesis by simp
  qed
  with f l r show ?case by simp
qed

lemma in_degrees_square:
  assumes "square (length m) m"
  shows "\<exists>ds. in_degrees m = Inr ds \<and> length ds = length m \<and>
           (\<forall>v<length m. ds ! v = int (card {u. (u, v) \<in> arcs m}))"
proof -
  let ?n = "length m"
  have sub: "set [0..<?n] \<subseteq> {..<?n}" by auto
  have len: "length (replicate ?n (0::int)) = ?n" by simp
  from count_rows [OF assms distinct_upt sub len] obtain ds where
    f: "fold_err (\<lambda>i. fold_err (count_arc m i) [0..<?n]) [0..<?n] (replicate ?n 0) = Inr ds"
    and l: "length ds = ?n"
    and v: "\<forall>j<?n. ds ! j = replicate ?n 0 ! j + int (card {i \<in> set [0..<?n]. m ! i ! j \<noteq> None})"
    by blast
  have "ds ! j = int (card {u. (u, j) \<in> arcs m})" if "j < ?n" for j
  proof -
    have "{i \<in> set [0..<?n]. m ! i ! j \<noteq> None} = {u. (u, j) \<in> arcs m}"
      using that by (auto simp: arcs_def)
    with v that show ?thesis by simp
  qed
  with f l show ?thesis
    by (simp add: in_degrees_def Let_def)
qed

lemma relax_square:
  assumes "square n m" "u < n" "v < n" "length ds = n"
  shows "relax m u v (ds, q) =
           Inr (if m ! u ! v \<noteq> None
                then (ds[v := ds ! v - 1], if ds ! v = 1 then q @ [v] else q)
                else (ds, q))"
  using assms by (auto simp: relax_def get_cell_square Let_def split: option.splits)

lemma relax_row:
  assumes sq: "square n m" and u: "u < n"
  shows "distinct vs \<Longrightarrow> set vs \<subseteq> {..<n} \<Longrightarrow> length ds = n \<Longrightarrow>
         \<exists>ds'. fold_err (relax m u) vs (ds, q)
                  = Inr (ds', q @ filter (\<lambda>v. m ! u ! v \<noteq> None \<and> ds ! v = 1) vs) \<and>
           length ds' = n \<and>
           (\<forall>v<n. ds' ! v = ds ! v - (if v \<in> set vs \<and> m ! u ! v \<noteq> None then 1 else 0))"
proof (induction vs arbitrary: ds q)
  case Nil
  then show ?case by simp
next
  case (Cons v vs)
  have v: "v < n" using Cons.prems(2) by simp
  define ds1 where "ds1 = (if m ! u ! v \<noteq> None then ds[v := ds ! v - 1] else ds)"
  define q1 where "q1 = (if m ! u ! v \<noteq> None \<and> ds ! v = 1 then q @ [v] else q)"
  have s: "relax m u v (ds, q) = Inr (ds1, q1)"
    unfolding relax_square [OF sq u v Cons.prems(3)] ds1_def q1_def by simp
  have l1: "length ds1 = n" using Cons.prems(3) by (simp add: ds1_def)
  have d: "distinct vs" and sub: "set vs \<subseteq> {..<n}" and nin: "v \<notin> set vs"
    using Cons.prems(1,2) by auto
  from Cons.IH [OF d sub l1, of q1] obtain ds' where
    f: "fold_err (relax m u) vs (ds1, q1)
          = Inr (ds', q1 @ filter (\<lambda>w. m ! u ! w \<noteq> None \<and> ds1 ! w = 1) vs)"
    and l: "length ds' = n"
    and val: "\<forall>w<n. ds' ! w = ds1 ! w - (if w \<in> set vs \<and> m ! u ! w \<noteq> None then 1 else 0)"
    by blast
  have other: "ds1 ! w = ds ! w" if "w \<noteq> v" for w
    using that by (simp add: ds1_def)
  have same: "ds1 ! w = ds ! w" if "w \<in> set vs" for w
    using that nin by (intro other) auto
  have flt: "filter (\<lambda>w. m ! u ! w \<noteq> None \<and> ds1 ! w = 1) vs
               = filter (\<lambda>w. m ! u ! w \<noteq> None \<and> ds ! w = 1) vs"
    by (rule filter_cong) (simp_all add: same)
  have q: "q1 @ filter (\<lambda>w. m ! u ! w \<noteq> None \<and> ds ! w = 1) vs
             = q @ filter (\<lambda>w. m ! u ! w \<noteq> None \<and> ds ! w = 1) (v # vs)"
    by (simp add: q1_def)
  have "ds' ! w = ds ! w - (if w \<in> set (v # vs) \<and> m ! u ! w \<noteq> None then 1 else 0)"
    if "w < n" for w
  proof (cases "w = v")
    case True
    have "ds1 ! v = ds ! v - (if m ! u ! v \<noteq> None then 1 else 0)"
      using v Cons.prems(3) by (simp add: ds1_def)
    with val that nin True show ?thesis by simp
  next
    case False
    with val that other [OF False] show ?thesis by simp
  qed
  moreover have "fold_err (relax m u) (v # vs) (ds, q)
      = Inr (ds', q @ filter (\<lambda>w. m ! u ! w \<noteq> None \<and> ds ! w = 1) (v # vs))"
    unfolding q [symmetric] flt [symmetric] using f s by simp
  ultimately show ?case
    using l by blast
qed

lemma arcs_bound: "(u, v) \<in> arcs m \<Longrightarrow> u < length m \<and> v < length m"
  by (simp add: arcs_def)

lemma finite_arcs: "finite (arcs m)"
proof -
  have "arcs m \<subseteq> {..<length m} \<times> {..<length m}"
    by (auto simp: arcs_def)
  then show ?thesis
    by (rule finite_subset) simp
qed

lemma finite_preds: "finite {u. u \<notin> P \<and> (u, v) \<in> arcs m}"
proof -
  have "{u. u \<notin> P \<and> (u, v) \<in> arcs m} \<subseteq> {..<length m}"
    by (auto dest: arcs_bound)
  then show ?thesis
    by (rule finite_subset) simp
qed

lemma kahn_step:
  assumes sq: "square (length m) m" and inv: "kahn_inv m P (u # q) ds c"
  shows "\<exists>ds' q'. fold_err (relax m u) [0..<length m] (ds, q) = Inr (ds', q') \<and>
           kahn_inv m (insert u P) q' ds' (c + 1)"
proof -
  let ?n = "length m"
  let ?A = "arcs m"
  from inv have len: "length ds = ?n" and P: "P \<subseteq> {..<?n}" and dq: "distinct (u # q)"
    and qn: "set (u # q) \<subseteq> {..<?n}" and qP: "set (u # q) \<inter> P = {}" and c: "c = card P"
    and deg: "\<forall>v<?n. ds ! v = int (card {w. w \<notin> P \<and> (w, v) \<in> ?A})"
    and zero: "\<forall>v<?n. v \<notin> P \<longrightarrow> (v \<in> set (u # q) \<longleftrightarrow> ds ! v = 0)"
    and closed: "\<forall>v \<in> P. \<forall>w. (w, v) \<in> ?A \<longrightarrow> w \<in> P"
    and nocyc: "\<forall>v \<in> P. (v, v) \<notin> ?A\<^sup>+"
    by (simp_all add: kahn_inv_def)
  have u: "u < ?n" and uP: "u \<notin> P" and uq: "u \<notin> set q"
    using qn qP dq by auto
  have sub: "set [0..<?n] \<subseteq> {..<?n}" by auto
  from relax_row [OF sq u distinct_upt sub len, of q] obtain ds' where
    f: "fold_err (relax m u) [0..<?n] (ds, q)
          = Inr (ds', q @ filter (\<lambda>v. m ! u ! v \<noteq> None \<and> ds ! v = 1) [0..<?n])"
    and l': "length ds' = ?n"
    and val': "\<forall>v<?n. ds' ! v = ds ! v - (if v \<in> set [0..<?n] \<and> m ! u ! v \<noteq> None then 1 else 0)"
    by blast
  define new where "new = filter (\<lambda>v. m ! u ! v \<noteq> None \<and> ds ! v = 1) [0..<?n]"
  have dnew: "distinct new" by (simp add: new_def)
  have arc: "(u, v) \<in> ?A \<longleftrightarrow> m ! u ! v \<noteq> None" if "v < ?n" for v
    using that u by (simp add: arcs_def)
  have val: "ds' ! v = ds ! v - (if (u, v) \<in> ?A then 1 else 0)" if "v < ?n" for v
    using val' that arc [OF that] by simp
  have upreds: "w \<in> P" if "(w, u) \<in> ?A" for w
  proof (rule ccontr)
    assume "w \<notin> P"
    with that have "w \<in> {w. w \<notin> P \<and> (w, u) \<in> ?A}" by simp
    then have "card {w. w \<notin> P \<and> (w, u) \<in> ?A} \<noteq> 0"
      using finite_preds [of P u m] by auto
    moreover from zero u uP have "ds ! u = 0" by auto
    ultimately show False
      using deg u by simp
  qed
  have split: "card {w. w \<notin> P \<and> (w, v) \<in> ?A}
      = card {w. w \<notin> insert u P \<and> (w, v) \<in> ?A} + (if (u, v) \<in> ?A then 1 else 0)" for v
  proof (cases "(u, v) \<in> ?A")
    case True
    then have "{w. w \<notin> P \<and> (w, v) \<in> ?A} = insert u {w. w \<notin> insert u P \<and> (w, v) \<in> ?A}"
      using uP by auto
    moreover have "u \<notin> {w. w \<notin> insert u P \<and> (w, v) \<in> ?A}" by simp
    ultimately show ?thesis
      using True finite_preds [of "insert u P" v m] by simp
  next
    case False
    then have "{w. w \<notin> P \<and> (w, v) \<in> ?A} = {w. w \<notin> insert u P \<and> (w, v) \<in> ?A}"
      by auto
    with False show ?thesis by simp
  qed
  have deg': "\<forall>v<?n. ds' ! v = int (card {w. w \<notin> insert u P \<and> (w, v) \<in> ?A})"
    using val deg split by simp
  have new_iff: "v \<in> set new \<longleftrightarrow> v < ?n \<and> (u, v) \<in> ?A \<and> ds ! v = 1" for v
  proof (cases "v < ?n")
    case True
    show ?thesis
      unfolding arc [OF True] new_def using True by auto
  next
    case False
    then show ?thesis by (simp add: new_def)
  qed
  have new_fresh: "v \<notin> P \<and> v \<noteq> u \<and> v \<notin> set q" if "v \<in> set new" for v
  proof -
    from that have v: "v < ?n" "(u, v) \<in> ?A" "ds ! v = 1"
      by (simp_all add: new_iff)
    have "v \<notin> P" using closed v(2) uP by blast
    moreover have "v \<noteq> u" using upreds v(2) uP by blast
    moreover have "v \<notin> set q" using zero v(1,3) \<open>v \<notin> P\<close> by auto
    ultimately show ?thesis by simp
  qed
  have "kahn_inv m (insert u P) (q @ new) ds' (c + 1)"
    unfolding kahn_inv_def
  proof (intro conjI)
    show "length ds' = ?n" by (rule l')
    show "insert u P \<subseteq> {..<?n}" using P u by simp
    show "distinct (q @ new)" using dq dnew new_fresh by auto
    show "set (q @ new) \<subseteq> {..<?n}" using qn by (auto simp: new_iff)
    show "set (q @ new) \<inter> insert u P = {}" using qP uq new_fresh by auto
    show "c + 1 = card (insert u P)"
      using c uP finite_subset [OF P] by simp
    show "\<forall>v<?n. ds' ! v = int (card {w. w \<notin> insert u P \<and> (w, v) \<in> ?A})" by (rule deg')
    show "\<forall>v<?n. v \<notin> insert u P \<longrightarrow> (v \<in> set (q @ new) \<longleftrightarrow> ds' ! v = 0)"
    proof (intro allI impI)
      fix v assume v: "v < ?n" and vP: "v \<notin> insert u P"
      show "v \<in> set (q @ new) \<longleftrightarrow> ds' ! v = 0"
      proof (cases "(u, v) \<in> ?A")
        case True
        then have "u \<in> {w. w \<notin> P \<and> (w, v) \<in> ?A}" using uP by simp
        then have "card {w. w \<notin> P \<and> (w, v) \<in> ?A} \<noteq> 0"
          using finite_preds [of P v m] by auto
        with deg v have "ds ! v \<noteq> 0" by simp
        with zero v vP have "v \<notin> set q" by auto
        with True v val [OF v] show ?thesis
          by (auto simp: new_iff)
      next
        case False
        with zero v vP val [OF v] show ?thesis
          by (auto simp: new_iff)
      qed
    qed
    show "\<forall>v \<in> insert u P. \<forall>w. (w, v) \<in> ?A \<longrightarrow> w \<in> insert u P"
      using closed upreds by blast
    show "\<forall>v \<in> insert u P. (v, v) \<notin> ?A\<^sup>+"
    proof
      fix v assume "v \<in> insert u P"
      show "(v, v) \<notin> ?A\<^sup>+"
      proof (cases "v = u")
        case False
        with \<open>v \<in> insert u P\<close> nocyc show ?thesis by simp
      next
        case True
        show ?thesis
        proof
          assume "(v, v) \<in> ?A\<^sup>+"
          then have "(u, u) \<in> ?A\<^sup>+" using True by simp
          then obtain w where w: "(u, w) \<in> ?A\<^sup>*" "(w, u) \<in> ?A"
            by (meson tranclD2)
          then have "w \<in> P" using upreds by simp
          moreover from w have "(w, w) \<in> ?A\<^sup>+"
            by (meson rtrancl_into_trancl2)
          ultimately show False using nocyc by blast
        qed
      qed
    qed
  qed
  with f show ?thesis unfolding new_def by blast
qed

lemma kahn_loop_inv:
  "kahn_inv m P q ds c \<Longrightarrow> square (length m) m \<Longrightarrow> n = length m \<Longrightarrow>
   \<exists>P' ds'. kahn_loop m n q ds c = Inr (card P') \<and> kahn_inv m P' [] ds' (card P')"
proof (induction m n q ds c arbitrary: P rule: kahn_loop.induct)
  case (1 m n in_degree count_visited)
  then have "count_visited = card P"
    by (simp add: kahn_inv_def)
  with 1 show ?case
    by auto
next
  case (2 m n u queue in_degree count_visited)
  from kahn_step [OF "2.prems"(2,1)] obtain ds' q' where
    f: "fold_err (relax m u) [0..<length m] (in_degree, queue) = Inr (ds', q')"
    and inv: "kahn_inv m (insert u P) q' ds' (count_visited + 1)"
    by blast
  from f "2.prems"(3) have f': "fold_err (relax m u) [0..<n] (in_degree, queue) = Inr (ds', q')"
    by simp
  from "2.IH" [OF f' refl inv "2.prems"(2,3)] f' show ?case
    by simp
qed

lemma kahn_start:
  assumes "length ds = length m"
    and "\<forall>v<length m. ds ! v = int (card {u. (u, v) \<in> arcs m})"
  shows "kahn_inv m {} [i \<leftarrow> [0..<length m]. ds ! i = 0] ds 0"
  using assms by (auto simp: kahn_inv_def)

lemma detect_cycle_square:
  assumes sq: "square (length m) m"
  shows "detect_cycle m = Inr (\<not> acyclic (arcs m))"
proof -
  let ?n = "length m"
  let ?A = "arcs m"
  from in_degrees_square [OF sq] obtain ds where
    ds: "in_degrees m = Inr ds" and len: "length ds = ?n"
    and deg: "\<forall>v<?n. ds ! v = int (card {u. (u, v) \<in> ?A})"
    by blast
  from kahn_loop_inv [OF kahn_start [OF len deg] sq refl] obtain P ds' where
    k: "kahn_loop m ?n [i \<leftarrow> [0..<?n]. ds ! i = 0] ds 0 = Inr (card P)"
    and inv: "kahn_inv m P [] ds' (card P)"
    by blast
  from inv [unfolded kahn_inv_def] have P: "P \<subseteq> {..<?n}"
    and deg': "\<forall>v<?n. ds' ! v = int (card {u. u \<notin> P \<and> (u, v) \<in> ?A})"
    and nocyc: "\<forall>v \<in> P. (v, v) \<notin> ?A\<^sup>+"
    by blast+
  from inv [unfolded kahn_inv_def] have "\<forall>v<?n. v \<notin> P \<longrightarrow> (v \<in> set [] \<longleftrightarrow> ds' ! v = 0)"
    by blast
  then have zero: "\<forall>v<?n. v \<notin> P \<longrightarrow> ds' ! v \<noteq> 0"
    by simp
  have has_pred: "\<exists>u. u \<notin> P \<and> (u, v) \<in> ?A" if "v < ?n" "v \<notin> P" for v
  proof (rule ccontr)
    assume "\<not> (\<exists>u. u \<notin> P \<and> (u, v) \<in> ?A)"
    then have "{u. u \<notin> P \<and> (u, v) \<in> ?A} = {}" by blast
    then have "card {u. u \<notin> P \<and> (u, v) \<in> ?A} = 0" by (simp only: card.empty)
    with deg' that(1) have "ds' ! v = 0" by simp
    with zero that show False by simp
  qed
  have "card P < ?n \<longleftrightarrow> \<not> acyclic ?A"
  proof
    assume less: "card P < ?n"
    show "\<not> acyclic ?A"
    proof
      assume "acyclic ?A"
      with finite_arcs [of m] have "wf ?A"
        by (rule finite_acyclic_wf)
      from less P have "{..<?n} - P \<noteq> {}"
        by (metis Diff_eq_empty_iff card_lessThan less_irrefl subset_antisym)
      then obtain x where "x \<in> {..<?n} - P" by blast
      with \<open>wf ?A\<close> obtain z where z: "z \<in> {..<?n} - P"
        and min: "\<And>y. (y, z) \<in> ?A \<Longrightarrow> y \<notin> {..<?n} - P"
        by (meson wfE_min)
      from z has_pred [of z] obtain u where u: "u \<notin> P" "(u, z) \<in> ?A"
        by auto
      from u(2) have "u < ?n" by (simp add: arcs_bound)
      with u min [OF u(2)] show False by simp
    qed
  next
    assume "\<not> acyclic ?A"
    then obtain x where x: "(x, x) \<in> ?A\<^sup>+"
      by (auto simp: acyclic_def)
    then obtain y where "(x, y) \<in> ?A"
      by (meson tranclD)
    then have "x < ?n" by (simp add: arcs_bound)
    moreover from x nocyc have "x \<notin> P" by blast
    ultimately have "P \<subset> {..<?n}" using P by blast
    then have "card P < card {..<?n}"
      by (intro psubset_card_mono) simp_all
    then show "card P < ?n" by simp
  qed
  with ds k show ?thesis
    by (simp add: detect_cycle_def Let_def)
qed

lemma set_cell_shape:
  assumes "set_cell m i j v = Inr m'" "square n m"
  shows "square n m'"
proof -
  from assms(1) obtain r c where r: "py_index i (length m) = Some r"
    and c: "py_index j (length (m ! r)) = Some c" and m': "m' = m[r := (m ! r)[c := v]]"
    by (auto simp: set_cell_def split: option.splits)
  from py_index_Some [OF r] assms(2) have "length (m ! r) = n"
    by (simp add: square_def)
  with assms(2) show ?thesis
    unfolding m' by (auto simp: square_def dest!: set_update_subset_insert [THEN subsetD])
qed

lemma build_shape:
  assumes "build_adjacency_matrix tasks = Inr m"
  shows "square (length tasks + 2) m"
proof -
  let ?n = "length tasks + 2"
  let ?m0 = "replicate ?n (replicate ?n None) :: matrix"
  have sq0: "square ?n ?m0"
    by (simp add: square_def)
  from assms obtain m1 where m1: "fold_err (place_task tasks) tasks ?m0 = Inr m1"
    and m2: "fold_err (place_omega tasks (matrix_omega tasks)) tasks m1 = Inr m"
    by (auto simp: build_adjacency_matrix_def Let_def simp del: replicate_Suc split: sum.splits)
  have pp: "square ?n b" if "square ?n a" "place_pred tasks i p a = Inr b" for a b i p
    using that by (auto simp: place_pred_def split: option.splits intro: set_cell_shape)
  have pt: "square ?n b" if "square ?n a" "place_task tasks t a = Inr b" for a b t
  proof -
    obtain i d ps where t: "t = (i, d, ps)" by (cases t)
    show ?thesis
    proof (cases "ps = []")
      case True
      with that t show ?thesis by (auto intro: set_cell_shape)
    next
      case False
      with that t have "fold_err (place_pred tasks i) ps a = Inr b" by simp
      with that(1) pp show ?thesis
        by (rule_tac fold_err_invariant [where P = "square ?n" and s = a]) auto
    qed
  qed
  have po: "square ?n b" if "square ?n a" "place_omega tasks omega t a = Inr b" for a b t omega
    using that by (cases t) (auto split: if_splits intro: set_cell_shape)
  have "square ?n m1"
    using sq0 m1 pt by (rule_tac fold_err_invariant [where P = "square ?n" and s = ?m0]) auto
  then show ?thesis
    using m2 po by (rule_tac fold_err_invariant [where P = "square ?n" and s = m1]) auto
qed

text \<open>The task graph and the arcs of the matrix.\<close>

lemma trancl_image: "(x, y) \<in> r\<^sup>+ \<Longrightarrow> (f x, f y) \<in> (map_prod f f ` r)\<^sup>+"
proof (induction rule: trancl_induct)
  case (base y)
  then have "(f x, f y) \<in> map_prod f f ` r" by force
  then show ?case by (rule r_into_trancl)
next
  case (step y z)
  from step.hyps(2) have "(f y, f z) \<in> map_prod f f ` r" by force
  with step.IH show ?case by (rule trancl_into_trancl)
qed

lemma acyclic_image: "acyclic (map_prod f f ` r) \<Longrightarrow> acyclic r"
  unfolding acyclic_def using trancl_image [of _ _ r f] by blast

lemma edges_matrix_arcs:
  assumes "\<forall>t \<in> set tasks. 0 \<le> id_of t \<and> set (preds_of t) \<subseteq> id_of ` set tasks"
    and "omega_of tasks = int (length tasks) + 1"
  shows "edges tasks = map_prod int int ` matrix_arcs tasks"
proof -
  have ta: "map_prod int int ` task_arcs tasks t =
      (if preds_of t = [] then {(0, id_of t)} else {(p, id_of t) | p. p \<in> set (preds_of t)})"
    if "t \<in> set tasks" for t
  proof (cases "preds_of t = []")
    case True
    with that assms(1) show ?thesis
      by (simp add: task_arcs_def)
  next
    case False
    have p: "0 \<le> p \<and> p \<in> id_of ` set tasks" if "p \<in> set (preds_of t)" for p
      using that \<open>t \<in> set tasks\<close> assms(1) by auto
    have i: "0 \<le> id_of t"
      using that assms(1) by simp
    have "task_arcs tasks t = (\<lambda>p. (nat p, nat (id_of t))) ` set (preds_of t)"
      using False p by (auto simp: task_arcs_def)
    then have "map_prod int int ` task_arcs tasks t
        = (\<lambda>p. (int (nat p), int (nat (id_of t)))) ` set (preds_of t)"
      by (simp only: image_image map_prod_simp)
    also have "\<dots> = (\<lambda>p. (p, id_of t)) ` set (preds_of t)"
      by (rule image_cong) (use p i in auto)
    also have "\<dots> = {(p, id_of t) | p. p \<in> set (preds_of t)}"
      by auto
    finally show ?thesis
      using False by simp
  qed
  have oa: "map_prod int int ` omega_arcs tasks t =
      (if id_of t \<in> no_succ tasks then {(id_of t, omega_of tasks)} else {})"
    if "t \<in> set tasks" for t
    using that assms by (simp add: omega_arcs_def)
  have "map_prod int int ` matrix_arcs tasks
      = (\<Union>t \<in> set tasks. map_prod int int ` task_arcs tasks t)
        \<union> (\<Union>t \<in> set tasks. map_prod int int ` omega_arcs tasks t)"
    by (simp add: matrix_arcs_def image_Un image_UN)
  also have "\<dots> = (\<Union>t \<in> set tasks. if preds_of t = [] then {(0, id_of t)} else {(p, id_of t) | p. p \<in> set (preds_of t)})
        \<union> (\<Union>t \<in> set tasks. if id_of t \<in> no_succ tasks then {(id_of t, omega_of tasks)} else {})"
    using ta oa by simp
  also have "\<dots> = edges tasks"
    by (auto simp: edges_def split: if_splits)
  finally show ?thesis ..
qed

lemma matrix_arcs_edges:
  assumes "edges tasks = map_prod int int ` matrix_arcs tasks"
  shows "acyclic (matrix_arcs tasks) \<longleftrightarrow> acyclic (edges tasks)"
proof
  assume "acyclic (edges tasks)"
  then show "acyclic (matrix_arcs tasks)"
    unfolding assms by (rule acyclic_image)
next
  have "map_prod nat nat ` edges tasks = matrix_arcs tasks"
    unfolding assms by (force simp: image_image)
  moreover assume "acyclic (matrix_arcs tasks)"
  ultimately show "acyclic (edges tasks)"
    using acyclic_image [of nat "edges tasks"] by simp
qed

lemma edges_single: "edges [(2, 1, [])] = {(0, 2), (2, 3)}"
proof -
  have n: "no_succ [(2, 1, [])] = {2}"
    by (auto simp: no_succ_def tasks_with_preds_def)
  have o: "omega_of [(2, 1, [])] = 3"
    by (simp add: omega_of_def id_of_def)
  show ?thesis
    unfolding edges_def n o by (auto simp: id_of_def preds_of_def)
qed

lemma detect_cycle_edges:
  assumes "\<forall>t \<in> set tasks. 0 \<le> id_of t \<and> set (preds_of t) \<subseteq> id_of ` set tasks"
    and "omega_of tasks = int (length tasks) + 1"
  shows "\<exists>m. build_adjacency_matrix tasks = Inr m \<and> detect_cycle m = Inr (\<not> acyclic (edges tasks))"
proof -
  have "id_of t \<le> int (length tasks) + 1" if "t \<in> set tasks" for t
    using omega_of_above [of "id_of t" tasks] that assms(2) by simp
  with assms(1) have "\<forall>t \<in> set tasks. 0 \<le> id_of t \<and> id_of t \<le> int (length tasks) + 1"
    by simp
  from build_arcs [OF this] obtain m where m: "build_adjacency_matrix tasks = Inr m"
    "square (length tasks + 2) m" "arcs m = matrix_arcs tasks"
    by blast
  from m(2) have "square (length m) m"
    by (simp add: square_def)
  then have "detect_cycle m = Inr (\<not> acyclic (arcs m))"
    by (rule detect_cycle_square)
  also have "acyclic (arcs m) \<longleftrightarrow> acyclic (edges tasks)"
    unfolding m(3) by (rule matrix_arcs_edges) (rule edges_matrix_arcs [OF assms])
  finally show ?thesis
    using m(1) by simp
qed

text \<open>
  Claim C5 fails on the code. On every matrix that \<open>build_adjacency_matrix\<close> returns,
  \<open>detect_cycle\<close> returns true exactly when the arcs of the matrix contain a cycle. These
  arcs are the graph of the task list when no task id is negative, every predecessor is the id
  of a task and the largest id is the number of tasks, so that the matrix and the task graph
  have the same end vertex; \<open>detect_cycle\<close> then returns true exactly when the task graph
  has a cycle. It returns true for task 1 depending on task 2 and task 2 on task 1, whatever
  the durations, and false for the empty task list. For the single task 2 the task graph
  \<open>0 \<rightarrow> 2 \<rightarrow> 3\<close> has no cycle, but the matrix carries the arc into the end vertex on the
  diagonal, at row 2, column 2, and \<open>detect_cycle\<close> returns true.
\<close>

theorem detect_cycle_false_circuit:
  "(\<forall>tasks m. build_adjacency_matrix tasks = Inr m \<longrightarrow> detect_cycle m = Inr (\<not> acyclic (arcs m))) \<and>
   (\<forall>tasks. (\<forall>t \<in> set tasks. 0 \<le> id_of t \<and> set (preds_of t) \<subseteq> id_of ` set tasks) \<and>
        omega_of tasks = int (length tasks) + 1 \<longrightarrow>
      (\<exists>m. build_adjacency_matrix tasks = Inr m \<and>
         detect_cycle m = Inr (\<not> acyclic (edges tasks)))) \<and>
   (\<forall>d1 d2. \<exists>m. build_adjacency_matrix [(1, d1, [2]), (2, d2, [1])] = Inr m \<and>
      detect_cycle m = Inr True) \<and>
   (\<exists>m. build_adjacency_matrix [] = Inr m \<and> detect_cycle m = Inr False) \<and>
   acyclic (edges [(2, 1, [])]) \<and>
   build_adjacency_matrix [(2, 1, [])]
     = Inr [[None, None, Some 0], [None, None, None], [None, None, Some 1]] \<and>
   detect_cycle [[None, None, Some 0], [None, None, None], [None, None, Some 1]] = Inr True"
proof (intro conjI allI impI)
  fix tasks m assume b: "build_adjacency_matrix tasks = Inr m"
  from build_shape [OF b] have "square (length m) m"
    by (simp add: square_def)
  then show "detect_cycle m = Inr (\<not> acyclic (arcs m))"
    by (rule detect_cycle_square)
next
  fix tasks
  assume "(\<forall>t \<in> set tasks. 0 \<le> id_of t \<and> set (preds_of t) \<subseteq> id_of ` set tasks) \<and>
        omega_of tasks = int (length tasks) + 1"
  then show "\<exists>m. build_adjacency_matrix tasks = Inr m \<and>
         detect_cycle m = Inr (\<not> acyclic (edges tasks))"
    using detect_cycle_edges [of tasks] by blast
next
  fix d1 d2 :: int
  have "build_adjacency_matrix [(1, d1, [2]), (2, d2, [1])]
      = Inr [[None, None, None, None], [None, None, Some d1, None],
             [None, Some d2, None, None], [None, None, None, None]]"
    by (simp add: build_adjacency_matrix_def matrix_omega_def place_pred_def set_cell_def
        py_index_def no_succ_def tasks_with_preds_def)
  moreover have "detect_cycle [[None, None, None, None], [None, None, Some d1, None],
             [None, Some d2, None, None], [None, None, None, None]] = Inr True"
    by (simp add: detect_cycle_def in_degrees_def count_arc_def get_cell_def relax_def)
  ultimately show "\<exists>m. build_adjacency_matrix [(1, d1, [2]), (2, d2, [1])] = Inr m \<and>
      detect_cycle m = Inr True"
    by simp
next
  have "build_adjacency_matrix [] = Inr [[None, None], [None, None]]"
    by (simp add: build_adjacency_matrix_def matrix_omega_def)
  moreover have "detect_cycle [[None, None], [None, None]] = Inr False"
    by code_simp
  ultimately show "\<exists>m. build_adjacency_matrix [] = Inr m \<and> detect_cycle m = Inr False"
    by simp
next
  show "acyclic (edges [(2, 1, [])])"
    by (rule increasing_acyclic) (auto simp: edges_single)
next
  show "build_adjacency_matrix [(2, 1, [])]
     = Inr [[None, None, Some 0], [None, None, None], [None, None, Some 1]]"
    by code_simp
next
  show "detect_cycle [[None, None, Some 0], [None, None, None], [None, None, Some 1]] = Inr True"
    by code_simp
qed

theorem detect_cycle_false_circuit_witness:
  "omega_of scenario = int (length scenario) + 1 \<and> acyclic (edges scenario) \<and>
   (\<exists>m. build_adjacency_matrix scenario = Inr m \<and> detect_cycle m = Inr False)"
proof -
  have a: "\<forall>t \<in> set scenario. 0 \<le> id_of t \<and> set (preds_of t) \<subseteq> id_of ` set scenario"
    by (simp add: scenario_def id_of_def preds_of_def)
  have b: "omega_of scenario = int (length scenario) + 1"
    by (simp add: omega_of_def scenario_def id_of_def)
  from detect_cycle_false_circuit a b
  have "\<exists>m. build_adjacency_matrix scenario = Inr m \<and>
         detect_cycle m = Inr (\<not> acyclic (edges scenario))"
    by blast
  with b acyclic_scenario show ?thesis
    by simp
qed

section \<open>Termination of the rank loop\<close>

lemma pred_relI: "t \<in> set tasks \<Longrightarrow> p \<in> set (preds_of t) \<Longrightarrow> (p, id_of t) \<in> pred_rel tasks"
  unfolding pred_rel_def by blast

lemma pred_rel_edges: "pred_rel tasks \<subseteq> edges tasks"
  by (auto simp: pred_rel_def edges_def)

lemma finite_pred_rel: "finite (pred_rel tasks)"
proof -
  have "pred_rel tasks \<subseteq> (\<Union>t \<in> set tasks. set (preds_of t)) \<times> id_of ` set tasks"
    by (auto simp: pred_rel_def)
  then show ?thesis
    by (rule finite_subset) auto
qed

lemma wf_pred_rel: "acyclic (edges tasks) \<Longrightarrow> wf (pred_rel tasks)"
  by (intro finite_acyclic_wf finite_pred_rel acyclic_subset [OF _ pred_rel_edges])

lemma depth_unfold:
  assumes "wf (pred_rel tasks)"
  shows "depth tasks i = depth_step tasks (depth tasks) i"
proof -
  have "adm_wf (pred_rel tasks) (depth_step tasks)"
    unfolding adm_wf_def
  proof (intro allI impI)
    fix f g :: "int \<Rightarrow> int" and x
    assume eq: "\<forall>z. (z, x) \<in> pred_rel tasks \<longrightarrow> f z = g z"
    have "tuple_rank f t = tuple_rank g t" if "t \<in> set tasks" "id_of t = x" for t
    proof -
      have "f p = g p" if "p \<in> set (preds_of t)" for p
        using eq pred_relI [OF \<open>t \<in> set tasks\<close> that] \<open>id_of t = x\<close> by blast
      then have "f ` set (preds_of t) = g ` set (preds_of t)"
        by (intro image_cong) auto
      then show ?thesis
        by (simp add: tuple_rank_def)
    qed
    then have "tuple_rank f ` {t \<in> set tasks. id_of t = x} = tuple_rank g ` {t \<in> set tasks. id_of t = x}"
      by (intro image_cong) auto
    then show "depth_step tasks f x = depth_step tasks g x"
      by (simp add: depth_step_def)
  qed
  from wfrec_fixpoint [OF assms this] show ?thesis
    by (metis depth_def)
qed

lemma depth_nonneg:
  assumes "wf (pred_rel tasks)"
  shows "0 \<le> depth tasks i"
  unfolding depth_unfold [OF assms, of i] depth_step_def by (intro Max_ge) auto

lemma depth_outside:
  assumes "wf (pred_rel tasks)" and "i \<notin> id_of ` set tasks"
  shows "depth tasks i = 0"
proof -
  from assms(2) have "{t \<in> set tasks. id_of t = i} = {}" by auto
  then have "depth_step tasks (depth tasks) i = 0"
    unfolding depth_step_def by (simp only: image_empty Max_singleton)
  then show ?thesis
    unfolding depth_unfold [OF assms(1), of i] .
qed

lemma tuple_rank_le_depth:
  assumes "wf (pred_rel tasks)" and "t \<in> set tasks"
  shows "tuple_rank (depth tasks) t \<le> depth tasks (id_of t)"
  unfolding depth_unfold [OF assms(1), of "id_of t"] depth_step_def
  using assms(2) by (intro Max_ge) auto

lemma tuple_rank_nonneg:
  assumes "wf (pred_rel tasks)"
  shows "0 \<le> tuple_rank (depth tasks) t"
proof (cases "preds_of t = []")
  case True
  then show ?thesis by (simp add: tuple_rank_def)
next
  case False
  then obtain p where "p \<in> set (preds_of t)" by (cases "preds_of t") auto
  then have "depth tasks p \<le> Max (depth tasks ` set (preds_of t))"
    by (intro Max_ge) auto
  with depth_nonneg [OF assms, of p] False show ?thesis
    by (simp add: tuple_rank_def)
qed

lemma depth_attained:
  assumes "wf (pred_rel tasks)" and "i \<in> id_of ` set tasks"
  shows "\<exists>t \<in> set tasks. id_of t = i \<and> depth tasks i = tuple_rank (depth tasks) t"
proof -
  let ?S = "tuple_rank (depth tasks) ` {t \<in> set tasks. id_of t = i}"
  from assms(2) obtain t0 where t0: "t0 \<in> set tasks" "id_of t0 = i" by auto
  have fin: "finite (insert 0 ?S)" by simp
  have "Max (insert 0 ?S) \<in> insert 0 ?S"
    by (rule Max_in [OF fin]) simp
  then consider "Max (insert 0 ?S) = 0" | "Max (insert 0 ?S) \<in> ?S" by auto
  then show ?thesis
  proof cases
    case 1
    have "tuple_rank (depth tasks) t0 \<le> Max (insert 0 ?S)"
      using t0 by (intro Max_ge) auto
    with 1 tuple_rank_nonneg [OF assms(1), of t0] have "tuple_rank (depth tasks) t0 = 0"
      by simp
    with 1 t0 show ?thesis
      unfolding depth_unfold [OF assms(1), of i] depth_step_def by auto
  next
    case 2
    then show ?thesis
      unfolding depth_unfold [OF assms(1), of i] depth_step_def by auto
  qed
qed

lemma depth_pred_less:
  assumes "wf (pred_rel tasks)" and "t \<in> set tasks" and "p \<in> set (preds_of t)"
  shows "depth tasks p < depth tasks (id_of t)"
proof -
  have "depth tasks p \<le> Max (depth tasks ` set (preds_of t))"
    using assms(3) by (intro Max_ge) auto
  moreover have "preds_of t \<noteq> []" using assms(3) by auto
  ultimately have "depth tasks p < tuple_rank (depth tasks) t"
    by (simp add: tuple_rank_def)
  with tuple_rank_le_depth [OF assms(1,2)] show ?thesis by simp
qed

lemma depth_chain:
  assumes wf: "wf (pred_rel tasks)"
  shows "i \<in> id_of ` set tasks \<Longrightarrow> depth tasks i = int (Suc k) \<Longrightarrow>
         \<forall>j \<le> k. \<exists>i' \<in> id_of ` set tasks. depth tasks i' = int (Suc j)"
proof (induction k arbitrary: i)
  case 0
  then show ?case by auto
next
  case (Suc k)
  from depth_attained [OF wf Suc.prems(1)] obtain t where
    t: "t \<in> set tasks" "id_of t = i" "depth tasks i = tuple_rank (depth tasks) t"
    by blast
  with Suc.prems(2) have tr: "tuple_rank (depth tasks) t = int (Suc (Suc k))" by simp
  then have ne: "preds_of t \<noteq> []"
    by (auto simp: tuple_rank_def split: if_splits)
  with tr have mx: "Max (depth tasks ` set (preds_of t)) = int (Suc k)"
    by (simp add: tuple_rank_def)
  have "Max (depth tasks ` set (preds_of t)) \<in> depth tasks ` set (preds_of t)"
    using ne by (intro Max_in) auto
  with mx obtain p where p: "p \<in> set (preds_of t)" "depth tasks p = int (Suc k)"
    by auto
  have pin: "p \<in> id_of ` set tasks"
  proof (rule ccontr)
    assume "p \<notin> id_of ` set tasks"
    from depth_outside [OF wf this] p(2) show False by simp
  qed
  from Suc.IH [OF pin p(2)] Suc.prems show ?case
    by (metis le_Suc_eq)
qed

lemma depth_bound:
  assumes wf: "wf (pred_rel tasks)"
  shows "depth tasks i \<le> int (length tasks)"
proof (cases "i \<in> id_of ` set tasks \<and> 0 < depth tasks i")
  case False
  with depth_outside [OF wf, of i] depth_nonneg [OF wf, of i] show ?thesis
    by (cases "i \<in> id_of ` set tasks") auto
next
  case True
  then obtain k where k: "depth tasks i = int (Suc k)"
    by (metis Suc_pred' nat_0_le order_less_imp_le zero_less_nat_eq)
  from depth_chain [OF wf _ k] True
  have all: "\<forall>j \<le> k. \<exists>i' \<in> id_of ` set tasks. depth tasks i' = int (Suc j)"
    by simp
  have "(\<lambda>j. int (Suc j)) ` {..k} \<subseteq> depth tasks ` id_of ` set tasks"
    using all by (auto simp: image_iff) metis
  then have "card ((\<lambda>j. int (Suc j)) ` {..k}) \<le> card (depth tasks ` id_of ` set tasks)"
    by (intro card_mono) auto
  moreover have "card ((\<lambda>j. int (Suc j)) ` {..k}) = Suc k"
    by (subst card_image) (auto simp: inj_on_def)
  moreover have "card (depth tasks ` id_of ` set tasks) \<le> card (set tasks)"
    by (metis card_image_le List.finite_set image_image)
  moreover have "card (set tasks) \<le> length tasks"
    by (rule card_length)
  ultimately show ?thesis
    using k by simp
qed

lemma rank_step_eval:
  assumes "set ps \<subseteq> keys r" and "i \<in> keys r"
  shows "rank_step (i, dur, ps) (r, c) =
           (if ps \<noteq> [] then
              (if Max (val r ` set ps) + 1 > val r i
               then Inr (AList.update i (Max (val r ` set ps) + 1) r, True) else Inr (r, c))
            else if i \<noteq> 0 \<and> val r i = 0 then Inr (AList.update i 1 r, True)
            else Inr (r, c))"
proof -
  have t: "traverse (dict_get r) ps = Inr (map (val r) ps)"
    using assms(1) by (simp add: traverse_dict_get)
  have m: "py_max (map (val r) ps) = Inr (Max (val r ` set ps))" if "ps \<noteq> []"
    using that by (simp add: py_max_def)
  show ?thesis
    by (simp add: rank_step.simps t m dict_get_val [OF assms(2)] Let_def)
qed

lemma Max_image_mono:
  assumes "finite S" "S \<noteq> {}" "\<And>x. x \<in> S \<Longrightarrow> f x \<le> (g x :: int)"
  shows "Max (f ` S) \<le> Max (g ` S)"
proof -
  have "Max (f ` S) \<in> f ` S"
    using assms(1,2) by (intro Max_in) auto
  then obtain x where x: "x \<in> S" "Max (f ` S) = f x" by auto
  have "g x \<le> Max (g ` S)"
    using assms(1) x(1) by (intro Max_ge) auto
  with assms(3) [OF x(1)] x(2) show ?thesis by simp
qed

lemma rank_step_lvl:
  assumes wf: "wf (pred_rel tasks)" and res: "resolved tasks" and t: "t \<in> set tasks"
    and keys: "insert 0 (id_of ` set tasks) \<subseteq> keys r"
    and lv: "lvl tasks k r" and st: "settled tasks k D r"
  shows "\<exists>r' c'. rank_step t (r, c) = Inr (r', c') \<and> lvl tasks k r' \<and>
           settled tasks k (insert t D) r'"
proof -
  let ?d = "depth tasks"
  let ?I = "insert 0 (id_of ` set tasks)"
  obtain i dur ps where t': "t = (i, dur, ps)" by (cases t)
  have i: "i \<in> ?I" and idt: "id_of t = i" and pst: "preds_of t = ps"
    using t by (auto simp: t' id_of_def preds_of_def intro: rev_image_eqI)
  have psI: "set ps \<subseteq> ?I"
    using res t pst by (auto simp: resolved_def)
  note ev = rank_step_eval [of ps r i dur c, OF subset_trans [OF psI keys] subsetD [OF keys i]]
  have tr_le: "tuple_rank ?d t \<le> ?d i"
    using tuple_rank_le_depth [OF wf t] idt by simp
  have le: "val r x \<le> ?d x" and ge: "0 \<le> val r x" and eq: "?d x \<le> int k \<Longrightarrow> val r x = ?d x"
    if "x \<in> ?I" for x
    using lv that by (auto simp: lvl_def)
  define v where "v = (if ps \<noteq> [] then max (val r i) (Max (val r ` set ps) + 1)
                       else if i \<noteq> 0 \<and> val r i = 0 then 1 else val r i)"
  define r' where "r' = (if v = val r i then r else AList.update i v r)"
  have step: "\<exists>c'. rank_step t (r, c) = Inr (r', c')"
  proof (cases "ps = []")
    case True
    show ?thesis
    proof (cases "i \<noteq> 0 \<and> val r i = 0")
      case True
      with \<open>ps = []\<close> have "v = 1" "r' = AList.update i 1 r"
        by (simp_all add: v_def r'_def)
      with True \<open>ps = []\<close> show ?thesis
        unfolding t' ev by auto
    next
      case False
      with \<open>ps = []\<close> have "v = val r i"
        by (auto simp: v_def)
      then have "r' = r"
        by (simp add: r'_def)
      moreover from False have "(i \<noteq> 0 \<and> val r i = 0) = False"
        by blast
      ultimately show ?thesis
        unfolding t' ev using \<open>ps = []\<close> by (simp only: if_False simp_thms) blast
    qed
  next
    case False
    show ?thesis
    proof (cases "val r i < Max (val r ` set ps) + 1")
      case True
      with False have "v = Max (val r ` set ps) + 1"
        by (simp add: v_def)
      with True have "r' = AList.update i (Max (val r ` set ps) + 1) r"
        by (simp add: r'_def)
      with True False show ?thesis
        unfolding t' ev by auto
    next
      case n: False
      with False have "v = val r i"
        by (simp add: v_def)
      then have "r' = r"
        by (simp add: r'_def)
      with n False show ?thesis
        unfolding t' ev by auto
    qed
  qed
  have val': "val r' x = (if x = i then v else val r x)" for x
    by (simp add: r'_def val_update)
  have v_ge: "val r i \<le> v"
    by (auto simp: v_def)
  have nr_le: "Max (val r ` set ps) + 1 \<le> tuple_rank ?d t" if "ps \<noteq> []"
  proof -
    have "Max (val r ` set ps) \<le> Max (?d ` set ps)"
      using that psI le by (intro Max_image_mono) auto
    with that pst show ?thesis by (simp add: tuple_rank_def)
  qed
  have tr1: "tuple_rank ?d t = 1" if "ps = []" "i \<noteq> 0"
    using that pst idt by (simp add: tuple_rank_def)
  have v_le: "v \<le> ?d i"
  proof (cases "ps = []")
    case True
    with tr_le tr1 le [OF i] show ?thesis by (auto simp: v_def)
  next
    case False
    with nr_le tr_le le [OF i] show ?thesis by (simp add: v_def)
  qed
  have v_eq: "v = val r i" if "?d i \<le> int k"
    using eq [OF i that] v_le v_ge by simp
  have lv': "lvl tasks k r'"
    unfolding lvl_def
  proof (intro ballI conjI impI)
    fix x assume x: "x \<in> ?I"
    show "0 \<le> val r' x" using ge [OF x] ge [OF i] v_ge by (simp add: val')
    show "val r' x \<le> ?d x" using le [OF x] v_le by (simp add: val')
    show "val r' x = ?d x" if "?d x \<le> int k"
    proof (cases "x = i")
      case True
      with that v_eq eq [OF i] show ?thesis by (simp add: val')
    next
      case False
      with eq [OF x that] show ?thesis by (simp add: val')
    qed
  qed
  have mono: "val r x \<le> val r' x" for x
    using v_ge by (simp add: val')
  have self: "tuple_rank ?d t \<le> v" if small: "?d i \<le> int (Suc k)"
  proof (cases "ps = []")
    case True
    show ?thesis
    proof (cases "i = 0")
      case True
      with \<open>ps = []\<close> pst idt ge [OF i] v_ge show ?thesis by (simp add: tuple_rank_def)
    next
      case False
      with True tr1 ge [OF i] show ?thesis by (auto simp: v_def)
    qed
  next
    case False
    have "val r p = ?d p" if "p \<in> set ps" for p
    proof -
      have "?d p < ?d i"
        using depth_pred_less [OF wf t, of p] that pst idt by simp
      with small have "?d p \<le> int k" by simp
      with eq [of p] psI that show ?thesis by auto
    qed
    then have "val r ` set ps = ?d ` set ps"
      by (intro image_cong) auto
    with False pst have "tuple_rank ?d t = Max (val r ` set ps) + 1"
      by (simp add: tuple_rank_def)
    with False show ?thesis by (simp add: v_def)
  qed
  have st': "settled tasks k (insert t D) r'"
    unfolding settled_def
  proof (intro ballI impI)
    fix s assume s: "s \<in> insert t D" and small: "?d (id_of s) \<le> int (Suc k)"
    show "tuple_rank ?d s \<le> val r' (id_of s)"
    proof (cases "s = t")
      case True
      with self small idt show ?thesis by (simp add: val')
    next
      case False
      with s st small have "tuple_rank ?d s \<le> val r (id_of s)"
        by (simp add: settled_def)
      with mono [of "id_of s"] show ?thesis by simp
    qed
  qed
  from step lv' st' show ?thesis by blast
qed

lemma fold_rank_step_lvl:
  assumes wf: "wf (pred_rel tasks)" and res: "resolved tasks"
  shows "set xs \<subseteq> set tasks \<Longrightarrow> insert 0 (id_of ` set tasks) \<subseteq> keys r \<Longrightarrow>
         lvl tasks k r \<Longrightarrow> settled tasks k D r \<Longrightarrow>
         \<exists>r' c'. fold_err rank_step xs (r, c) = Inr (r', c') \<and> lvl tasks k r' \<and>
           settled tasks k (D \<union> set xs) r'"
proof (induction xs arbitrary: r c D)
  case Nil
  then show ?case by simp
next
  case (Cons x xs)
  from Cons.prems(1) have x: "x \<in> set tasks" and xs: "set xs \<subseteq> set tasks" by auto
  from rank_step_lvl [OF wf res x Cons.prems(2,3,4), of c] obtain r1 c1 where
    s: "rank_step x (r, c) = Inr (r1, c1)" and l1: "lvl tasks k r1"
    and st1: "settled tasks k (insert x D) r1"
    by blast
  have "keys r1 = keys r"
    using rank_step_keys [OF s] by simp
  with Cons.prems(2) have k1: "insert 0 (id_of ` set tasks) \<subseteq> keys r1" by simp
  from Cons.IH [OF xs k1 l1 st1, of c1] obtain r' c' where
    "fold_err rank_step xs (r1, c1) = Inr (r', c')" "lvl tasks k r'"
    "settled tasks k (insert x D \<union> set xs) r'"
    by blast
  with s show ?case by auto
qed

lemma lvl_Suc:
  assumes wf: "wf (pred_rel tasks)" and "lvl tasks k r" and "settled tasks k (set tasks) r"
  shows "lvl tasks (Suc k) r"
  unfolding lvl_def
proof (intro ballI conjI impI)
  fix x assume x: "x \<in> insert 0 (id_of ` set tasks)"
  from assms(2) x show a: "0 \<le> val r x" and b: "val r x \<le> depth tasks x"
    by (auto simp: lvl_def)
  assume small: "depth tasks x \<le> int (Suc k)"
  show "val r x = depth tasks x"
  proof (cases "x \<in> id_of ` set tasks")
    case True
    from depth_attained [OF wf True] obtain t where
      t: "t \<in> set tasks" "id_of t = x" "depth tasks x = tuple_rank (depth tasks) t"
      by blast
    with assms(3) small have "tuple_rank (depth tasks) t \<le> val r x"
      by (auto simp: settled_def)
    with t(3) b show ?thesis by simp
  next
    case False
    from depth_outside [OF wf False] a b show ?thesis by simp
  qed
qed

lemma omega_fresh: "omega_of tasks \<notin> insert 0 (id_of ` set tasks)"
proof
  assume "omega_of tasks \<in> insert 0 (id_of ` set tasks)"
  then have "omega_of tasks < omega_of tasks"
    by (rule omega_of_above)
  then show False by simp
qed

lemma good_others: "good tasks r \<Longrightarrow> keys r - {omega_of tasks} = insert 0 (id_of ` set tasks)"
  using omega_fresh [of tasks] by (auto simp: good_def)

lemma omega_step_eval:
  assumes "good tasks r"
  shows "omega_step (omega_of tasks) (r, c) =
           (if Max (val r ` insert 0 (id_of ` set tasks)) + 1 \<noteq> val r (omega_of tasks)
            then Inr (AList.update (omega_of tasks) (Max (val r ` insert 0 (id_of ` set tasks)) + 1) r, True)
            else Inr (r, c))"
proof -
  let ?omega = "omega_of tasks"
  let ?vs = "map snd (filter (\<lambda>(t, x). t \<noteq> ?omega) r)"
  from assms have d: "distinct (map fst r)" and k: "?omega \<in> keys r"
    by (simp_all add: good_def)
  have set: "set ?vs = val r ` insert 0 (id_of ` set tasks)"
    unfolding values_except [OF d] good_others [OF assms] ..
  then have "set ?vs \<noteq> {}" by simp
  then have ne: "?vs \<noteq> []"
    by (simp only: set_empty [symmetric] not_False_eq_True)
  have "py_max ?vs = Inr (Max (val r ` insert 0 (id_of ` set tasks)))"
    unfolding py_max_def set [symmetric] using ne by simp
  then show ?thesis
    by (simp add: omega_step_def dict_get_val [OF k] Let_def)
qed

lemma rank_step_distinct:
  assumes "rank_step t s = Inr s'" and "distinct (map fst (fst s))"
  shows "distinct (map fst (fst s'))"
proof -
  obtain i d ps where t: "t = (i, d, ps)" by (cases t)
  obtain r c where s: "s = (r, c)" by (cases s)
  obtain r' c' where s': "s' = (r', c')" by (cases s')
  from rank_step_cases [of i d ps r c r' c'] assms show ?thesis
    by (auto simp: t s s' distinct_update)
qed

lemma fold_rank_step_good:
  assumes "fold_err rank_step xs (r, c) = Inr (r', c')" and "good tasks r"
  shows "good tasks r'"
proof -
  have "distinct (map fst (fst (r', c')))"
    by (rule fold_err_invariant [where P = "\<lambda>s. distinct (map fst (fst s))", OF _ _ assms(1)])
      (use assms(2) in \<open>auto simp: good_def intro: rank_step_distinct\<close>)
  with fold_rank_step_keys [OF assms(1)] assms(2) show ?thesis
    by (simp add: good_def)
qed

lemma lvl_cong:
  assumes "\<And>x. x \<in> insert 0 (id_of ` set tasks) \<Longrightarrow> val r' x = val r x"
  shows "lvl tasks k r' = lvl tasks k r"
  unfolding lvl_def using assms by (intro ball_cong refl) simp

lemma rank_pass_lvl:
  assumes wf: "wf (pred_rel tasks)" and res: "resolved tasks"
    and g: "good tasks r" and lv: "lvl tasks k r"
  shows "\<exists>r' c. rank_pass tasks (omega_of tasks) r = Inr (r', c) \<and> good tasks r' \<and>
           lvl tasks (Suc k) r' \<and>
           val r' (omega_of tasks) = Max (val r' ` insert 0 (id_of ` set tasks)) + 1"
proof -
  let ?omega = "omega_of tasks"
  let ?I = "insert 0 (id_of ` set tasks)"
  have ks: "?I \<subseteq> keys r"
    using g by (auto simp: good_def)
  have st0: "settled tasks k {} r"
    by (simp add: settled_def)
  from fold_rank_step_lvl [OF wf res subset_refl ks lv st0, of False] obtain r1 c1 where
    f: "fold_err rank_step tasks (r, False) = Inr (r1, c1)" and l1: "lvl tasks k r1"
    and s1: "settled tasks k (set tasks) r1"
    by auto
  have g1: "good tasks r1"
    by (rule fold_rank_step_good [OF f g])
  have l2: "lvl tasks (Suc k) r1"
    by (rule lvl_Suc [OF wf l1 s1])
  define m1 where "m1 = Max (val r1 ` ?I) + 1"
  define r' where "r' = (if m1 \<noteq> val r1 ?omega then AList.update ?omega m1 r1 else r1)"
  have o: "\<exists>c. omega_step ?omega (r1, c1) = Inr (r', c)"
    unfolding omega_step_eval [OF g1] r'_def m1_def by auto
  have same: "val r' x = val r1 x" if "x \<in> ?I" for x
  proof -
    from that omega_fresh [of tasks] have "x \<noteq> ?omega" by auto
    then show ?thesis by (simp add: r'_def val_update)
  qed
  have om: "val r' ?omega = m1"
    by (simp add: r'_def val_update)
  have "val r' ` ?I = val r1 ` ?I"
    by (intro image_cong refl same)
  with om have "val r' ?omega = Max (val r' ` ?I) + 1"
    by (simp add: m1_def)
  moreover have "lvl tasks (Suc k) r' = lvl tasks (Suc k) r1"
    by (rule lvl_cong) (rule same)
  with l2 have "lvl tasks (Suc k) r'" by simp
  moreover have "good tasks r'"
    using g1 by (auto simp: r'_def good_def distinct_update keys_update)
  moreover from f o have "\<exists>c. rank_pass tasks ?omega r = Inr (r', c)"
    by (auto simp: rank_pass_def)
  ultimately show ?thesis by blast
qed

lemma fold_err_fixed: "(\<And>x. x \<in> set xs \<Longrightarrow> f x s = Inr s) \<Longrightarrow> fold_err f xs s = Inr s"
  by (induction xs) auto

lemma rank_pass_fix:
  assumes wf: "wf (pred_rel tasks)" and res: "resolved tasks" and g: "good tasks r"
    and eq: "\<forall>x \<in> insert 0 (id_of ` set tasks). val r x = depth tasks x"
    and om: "val r (omega_of tasks) = Max (val r ` insert 0 (id_of ` set tasks)) + 1"
  shows "rank_pass tasks (omega_of tasks) r = Inr (r, False)"
proof -
  let ?d = "depth tasks"
  let ?I = "insert 0 (id_of ` set tasks)"
  have ks: "?I \<subseteq> keys r"
    using g by (auto simp: good_def)
  have step: "rank_step t (r, False) = Inr (r, False)" if t: "t \<in> set tasks" for t
  proof -
    obtain i dur ps where t': "t = (i, dur, ps)" by (cases t)
    have i: "i \<in> ?I" and idt: "id_of t = i" and pst: "preds_of t = ps"
      using t by (auto simp: t' id_of_def preds_of_def intro: rev_image_eqI)
    have psI: "set ps \<subseteq> ?I"
      using res t pst by (auto simp: resolved_def)
    note ev = rank_step_eval [of ps r i dur False, OF subset_trans [OF psI ks] subsetD [OF ks i]]
    have "val r i = ?d i"
      by (rule bspec [OF eq i])
    then have tr_le: "tuple_rank ?d t \<le> val r i"
      using tuple_rank_le_depth [OF wf t] idt by simp
    show ?thesis
    proof (cases "ps = []")
      case True
      then have "i \<noteq> 0 \<Longrightarrow> val r i \<noteq> 0"
        using tr_le pst idt by (simp add: tuple_rank_def)
      with True show ?thesis
        unfolding t' ev by auto
    next
      case False
      have "val r ` set ps = ?d ` set ps"
        using eq psI by (intro image_cong) auto
      with False pst have "tuple_rank ?d t = Max (val r ` set ps) + 1"
        by (simp add: tuple_rank_def)
      with tr_le False show ?thesis
        unfolding t' ev by simp
    qed
  qed
  have "fold_err rank_step tasks (r, False) = Inr (r, False)"
    by (rule fold_err_fixed) (rule step)
  moreover have "omega_step (omega_of tasks) (r, False) = Inr (r, False)"
    unfolding omega_step_eval [OF g] using om by simp
  ultimately show ?thesis
    by (simp add: rank_pass_def)
qed

lemma lvl_full:
  assumes wf: "wf (pred_rel tasks)" and "lvl tasks k r" and "int (length tasks) \<le> int k"
  shows "\<forall>x \<in> insert 0 (id_of ` set tasks). val r x = depth tasks x"
proof
  fix x assume "x \<in> insert 0 (id_of ` set tasks)"
  moreover have "depth tasks x \<le> int k"
    using depth_bound [OF wf, of x] assms(3) by simp
  ultimately show "val r x = depth tasks x"
    using assms(2) unfolding lvl_def by blast
qed

lemma rank_loop_terminates:
  assumes wf: "wf (pred_rel tasks)" and res: "resolved tasks"
  shows "good tasks r \<Longrightarrow> lvl tasks k r \<Longrightarrow> length tasks - k + 2 \<le> fuel \<Longrightarrow>
         \<exists>r' k'. rank_loop fuel tasks (omega_of tasks) r = Some (Inr r') \<and>
           rank_pass tasks (omega_of tasks) r' = Inr (r', False) \<and> good tasks r' \<and>
           lvl tasks k' r' \<and>
           val r' (omega_of tasks) = Max (val r' ` insert 0 (id_of ` set tasks)) + 1"
proof (induction fuel arbitrary: r k)
  case 0
  then show ?case by simp
next
  case (Suc fuel)
  let ?omega = "omega_of tasks"
  from rank_pass_lvl [OF wf res Suc.prems(1,2)] obtain r1 c where
    p: "rank_pass tasks ?omega r = Inr (r1, c)" and g1: "good tasks r1"
    and l1: "lvl tasks (Suc k) r1"
    and o1: "val r1 ?omega = Max (val r1 ` insert 0 (id_of ` set tasks)) + 1"
    by blast
  show ?case
  proof (cases c)
    case False
    with p rank_pass_False [of tasks ?omega r r1] have "r1 = r" by simp
    with p False g1 l1 o1 show ?thesis by auto
  next
    case True
    show ?thesis
    proof (cases "k < length tasks")
      case less: True
      with Suc.prems(3) have "length tasks - Suc k + 2 \<le> fuel" by simp
      from Suc.IH [OF g1 l1 this] p True show ?thesis by simp
    next
      case False
      then have "int (length tasks) \<le> int (Suc k)" by simp
      from lvl_full [OF wf l1 this] have
        "rank_pass tasks ?omega r1 = Inr (r1, False)"
        by (intro rank_pass_fix [OF wf res g1 _ o1])
      moreover from Suc.prems(3) obtain f' where "fuel = Suc f'"
        by (cases fuel) auto
      ultimately have "rank_loop fuel tasks ?omega r1 = Some (Inr r1)"
        by simp
      with p True g1 l1 o1 \<open>rank_pass tasks ?omega r1 = Inr (r1, False)\<close> show ?thesis
        by auto
    qed
  qed
qed

lemma start_good: "good tasks (AList.update (omega_of tasks) 0 (init_ranks tasks))"
  using init_ranks_zero [of tasks] keys_init_ranks [of tasks]
  by (simp add: good_def distinct_update keys_update)

lemma start_lvl:
  assumes "wf (pred_rel tasks)"
  shows "lvl tasks 0 (AList.update (omega_of tasks) 0 (init_ranks tasks))"
  unfolding lvl_def
proof (intro ballI)
  fix x assume x: "x \<in> insert 0 (id_of ` set tasks)"
  then have "x \<in> keys (init_ranks tasks)"
    by (simp add: keys_init_ranks)
  with init_ranks_zero [of tasks] have "val (init_ranks tasks) x = 0"
    by simp
  moreover from x omega_fresh [of tasks] have "x \<noteq> omega_of tasks"
    by auto
  ultimately have "val (AList.update (omega_of tasks) 0 (init_ranks tasks)) x = 0"
    by (simp add: val_update)
  with depth_nonneg [OF assms, of x]
  show "0 \<le> val (AList.update (omega_of tasks) 0 (init_ranks tasks)) x \<and>
        val (AList.update (omega_of tasks) 0 (init_ranks tasks)) x \<le> depth tasks x \<and>
        (depth tasks x \<le> int 0 \<longrightarrow>
           val (AList.update (omega_of tasks) 0 (init_ranks tasks)) x = depth tasks x)"
    by simp
qed

lemma rank_loop_more_fuel:
  "rank_loop a tasks omega s = Some y \<Longrightarrow> a \<le> b \<Longrightarrow> rank_loop b tasks omega s = Some y"
proof (induction a arbitrary: s b)
  case 0
  then show ?case by simp
next
  case (Suc a)
  from Suc.prems(2) obtain b' where b: "b = Suc b'" "a \<le> b'"
    by (cases b) auto
  show ?case
  proof (cases "rank_pass tasks omega s")
    case (Inl e)
    with Suc.prems(1) show ?thesis by (simp add: b)
  next
    case (Inr p)
    obtain r1 c1 where p: "p = (r1, c1)" by (cases p)
    show ?thesis
    proof (cases c1)
      case True
      with Suc.prems(1) Inr p have "rank_loop a tasks omega r1 = Some y" by simp
      from Suc.IH [OF this b(2)] Inr p True show ?thesis by (simp add: b)
    next
      case False
      with Suc.prems(1) Inr p show ?thesis by (simp add: b)
    qed
  qed
qed

lemma resolved_ranks_terminate:
  assumes "acyclic (edges tasks)" and "resolved tasks"
  shows "\<exists>r. rank_pass tasks (omega_of tasks) r = Inr (r, False) \<and>
           (\<forall>x \<in> keys r. 0 \<le> val r x \<and> val r x < count_vertices tasks) \<and>
           (\<forall>fuel. nat (count_vertices tasks) \<le> fuel \<longrightarrow>
              rank_loop fuel tasks (omega_of tasks)
                  (AList.update (omega_of tasks) 0 (init_ranks tasks)) = Some (Inr r) \<and>
              assign_ranks fuel tasks = Some (Inr (sort r)))"
proof -
  let ?omega = "omega_of tasks"
  let ?I = "insert 0 (id_of ` set tasks)"
  let ?r0 = "AList.update ?omega 0 (init_ranks tasks)"
  let ?n = "length tasks + 2"
  have wf: "wf (pred_rel tasks)"
    by (rule wf_pred_rel [OF assms(1)])
  note res = assms(2)
  have n: "nat (count_vertices tasks) = ?n"
    by (simp add: count_vertices_def)
  from rank_loop_terminates [OF wf res start_good start_lvl [OF wf], of ?n] obtain r k where
    l: "rank_loop ?n tasks ?omega ?r0 = Some (Inr r)"
    and fp: "rank_pass tasks ?omega r = Inr (r, False)" and g: "good tasks r"
    and lv: "lvl tasks k r" and om: "val r ?omega = Max (val r ` ?I) + 1"
    by auto
  have any: "rank_loop fuel tasks ?omega ?r0 = Some (Inr r)" if "?n \<le> fuel" for fuel
    by (rule rank_loop_more_fuel [OF l that])
  have bound: "0 \<le> val r x \<and> val r x < count_vertices tasks" if "x \<in> keys r" for x
  proof (cases "x = ?omega")
    case False
    with that g have x: "x \<in> ?I" by (auto simp: good_def)
    with lv have "0 \<le> val r x" "val r x \<le> depth tasks x"
      unfolding lvl_def by blast+
    with depth_bound [OF wf, of x] show ?thesis
      by (simp add: count_vertices_def)
  next
    case True
    have "Max (val r ` ?I) \<in> val r ` ?I"
      by (intro Max_in) auto
    then obtain y where y: "y \<in> ?I" "Max (val r ` ?I) = val r y" by auto
    with lv have "0 \<le> val r y" "val r y \<le> depth tasks y"
      unfolding lvl_def by blast+
    with depth_bound [OF wf, of y] y(2) om True show ?thesis
      by (simp add: count_vertices_def)
  qed
  have "assign_ranks fuel tasks = Some (Inr (sort r))" if "?n \<le> fuel" for fuel
    using any [OF that]
    by (simp add: assign_ranks_def ranks_omega_eq omega_of_def [symmetric])
  with fp bound any show ?thesis
    unfolding n by blast
qed

lemma edges_omega:
  "t \<in> set tasks \<Longrightarrow> id_of t \<in> no_succ tasks \<Longrightarrow> (id_of t, omega_of tasks) \<in> edges tasks"
  unfolding edges_def by blast

lemma tasks_reach_omega:
  assumes ac: "acyclic (edges tasks)"
  shows "i \<in> id_of ` set tasks \<Longrightarrow> (i, omega_of tasks) \<in> (edges tasks)\<^sup>+"
proof -
  have "acyclic ((pred_rel tasks)\<inverse>)"
    using acyclic_subset [OF ac pred_rel_edges] by simp
  moreover have "finite ((pred_rel tasks)\<inverse>)"
    using finite_pred_rel by simp
  ultimately have wf: "wf ((pred_rel tasks)\<inverse>)"
    by (intro finite_acyclic_wf)
  show "i \<in> id_of ` set tasks \<Longrightarrow> (i, omega_of tasks) \<in> (edges tasks)\<^sup>+"
    using wf
  proof (induction i rule: wf_induct_rule)
    case (less i)
    from less.prems obtain t where t: "t \<in> set tasks" "id_of t = i" by auto
    show ?case
    proof (cases "i \<in> no_succ tasks")
      case True
      with edges_omega [OF t(1)] t(2) show ?thesis by auto
    next
      case False
      with less.prems obtain s where s: "s \<in> set tasks" "i \<in> set (preds_of s)"
        by (auto simp: no_succ_iff)
      then have "(id_of s, i) \<in> (pred_rel tasks)\<inverse>"
        by (simp add: pred_relI)
      from less.IH [OF this] s(1) have "(id_of s, omega_of tasks) \<in> (edges tasks)\<^sup>+"
        by simp
      moreover have "(i, id_of s) \<in> edges tasks"
        using s by (simp add: edges_pred)
      ultimately show ?thesis by simp
    qed
  qed
qed

lemma omega_not_pred:
  assumes "acyclic (edges tasks)" "t \<in> set tasks"
  shows "omega_of tasks \<notin> set (preds_of t)"
proof
  assume "omega_of tasks \<in> set (preds_of t)"
  with assms(2) have "(omega_of tasks, id_of t) \<in> edges tasks"
    by (simp add: edges_pred)
  moreover have "(id_of t, omega_of tasks) \<in> (edges tasks)\<^sup>+"
    using assms(2) by (intro tasks_reach_omega [OF assms(1)]) simp
  ultimately have "(omega_of tasks, omega_of tasks) \<in> (edges tasks)\<^sup>+"
    by simp
  with assms(1) show False
    by (simp add: acyclic_def)
qed

lemma traverse_error: "traverse (dict_get d) ps = Inl e \<Longrightarrow> e = KeyError"
proof (induction ps)
  case Nil
  then show ?case by simp
next
  case (Cons p ps)
  then show ?case
    by (cases "dict_get d p") (auto simp: dict_get_Inl split: sum.splits)
qed

lemma rank_step_error: "rank_step t s = Inl e \<Longrightarrow> e = KeyError"
proof -
  obtain i d ps where t: "t = (i, d, ps)" by (cases t)
  obtain r c where s: "s = (r, c)" by (cases s)
  assume "rank_step t s = Inl e"
  then show ?thesis
    unfolding t s
    by (auto simp: rank_step.simps Let_def py_max_def dict_get_Inl traverse_dict_get
        split: if_splits sum.splits dest: traverse_error)
qed

lemma traverse_missing:
  "\<not> set ps \<subseteq> keys d \<Longrightarrow> traverse (dict_get d) ps = Inl KeyError"
proof (induction ps)
  case Nil
  then show ?case by simp
next
  case (Cons p ps)
  show ?case
  proof (cases "p \<in> keys d")
    case True
    with Cons show ?thesis by (simp add: dict_get_val)
  next
    case False
    then have "dict_get d p = Inl KeyError" by (simp add: dict_get_Inl)
    then show ?thesis by simp
  qed
qed

lemma rank_step_missing:
  assumes "\<not> set (preds_of t) \<subseteq> keys r"
  shows "rank_step t (r, c) = Inl KeyError"
proof -
  obtain i d ps where t: "t = (i, d, ps)" by (cases t)
  from assms have "ps \<noteq> []" "\<not> set ps \<subseteq> keys r"
    by (auto simp: t preds_of_def)
  then show ?thesis
    by (simp add: t rank_step.simps traverse_missing)
qed

lemma fold_rank_step_missing:
  "\<exists>t \<in> set xs. \<not> set (preds_of t) \<subseteq> keys r \<Longrightarrow> fold_err rank_step xs (r, c) = Inl KeyError"
proof (induction xs arbitrary: r c)
  case Nil
  then show ?case by simp
next
  case (Cons x xs)
  show ?case
  proof (cases "rank_step x (r, c)")
    case (Inl e)
    with rank_step_error [OF Inl] show ?thesis by simp
  next
    case (Inr s1)
    obtain r1 c1 where s1: "s1 = (r1, c1)" by (cases s1)
    from Inr rank_step_missing [of x r c] have "set (preds_of x) \<subseteq> keys r" by auto
    with Cons.prems have "\<exists>t \<in> set xs. \<not> set (preds_of t) \<subseteq> keys r" by auto
    moreover have "keys r1 = keys r"
      using rank_step_keys [OF Inr] by (simp add: s1)
    ultimately have "fold_err rank_step xs (r1, c1) = Inl KeyError"
      using Cons.IH [of r1 c1] by simp
    with Inr s1 show ?thesis by simp
  qed
qed

text \<open>
  Claim C8. For a task list whose graph is acyclic the \<open>while changed:\<close> loop of
  \<open>assign_ranks\<close> ends within \<open>len(tasks) + 2\<close> passes, the vertex count: with that much fuel
  or more \<open>assign_ranks\<close> returns, and always the same result. When every predecessor is a
  task of the list (or the start vertex), the result is a rank dictionary \<open>r\<close>, sorted by
  key, on which a further pass changes nothing, and every rank in it lies in
  \<open>[0, len(tasks) + 2)\<close>. Otherwise the first pass raises KeyError at the unknown
  predecessor.
\<close>

theorem assign_ranks_terminates:
  assumes "acyclic (edges tasks)"
  shows "\<exists>res. (\<forall>fuel. nat (count_vertices tasks) \<le> fuel \<longrightarrow> assign_ranks fuel tasks = Some res) \<and>
           (resolved tasks \<longrightarrow>
              (\<exists>r. res = Inr (sort r) \<and>
                 rank_pass tasks (omega_of tasks) r = Inr (r, False) \<and>
                 (\<forall>x \<in> keys r. 0 \<le> val r x \<and> val r x < count_vertices tasks) \<and>
                 (\<forall>fuel. nat (count_vertices tasks) \<le> fuel \<longrightarrow>
                    rank_loop fuel tasks (omega_of tasks)
                      (AList.update (omega_of tasks) 0 (init_ranks tasks)) = Some (Inr r)))) \<and>
           (\<not> resolved tasks \<longrightarrow> res = Inl KeyError)"
proof (cases "resolved tasks")
  case True
  from resolved_ranks_terminate [OF assms True] obtain r where
    "rank_pass tasks (omega_of tasks) r = Inr (r, False)"
    "\<forall>x \<in> keys r. 0 \<le> val r x \<and> val r x < count_vertices tasks"
    "\<forall>fuel. nat (count_vertices tasks) \<le> fuel \<longrightarrow>
       rank_loop fuel tasks (omega_of tasks)
         (AList.update (omega_of tasks) 0 (init_ranks tasks)) = Some (Inr r) \<and>
       assign_ranks fuel tasks = Some (Inr (sort r))"
    by blast
  with True show ?thesis
    by (intro exI [of _ "Inr (sort r)"]) blast
next
  case False
  let ?omega = "omega_of tasks"
  let ?r0 = "AList.update ?omega 0 (init_ranks tasks)"
  from False obtain t p where t: "t \<in> set tasks" and p: "p \<in> set (preds_of t)"
    and out: "p \<notin> insert 0 (id_of ` set tasks)"
    by (auto simp: resolved_def)
  from omega_not_pred [OF assms t] p have "p \<noteq> ?omega" by auto
  with out have "p \<notin> keys ?r0"
    by (simp add: keys_update keys_init_ranks)
  with t p have "\<exists>t \<in> set tasks. \<not> set (preds_of t) \<subseteq> keys ?r0" by blast
  then have "fold_err rank_step tasks (?r0, False) = Inl KeyError"
    by (rule fold_rank_step_missing)
  then have pass: "rank_pass tasks ?omega ?r0 = Inl KeyError"
    by (simp add: rank_pass_def)
  have "assign_ranks fuel tasks = Some (Inl KeyError)" if "nat (count_vertices tasks) \<le> fuel"
    for fuel
  proof -
    from that obtain f where "fuel = Suc f"
      by (cases fuel) (auto simp: count_vertices_def)
    with pass show ?thesis
      by (simp add: assign_ranks_def ranks_omega_eq omega_of_def [symmetric])
  qed
  with False show ?thesis
    by (intro exI [of _ "Inl KeyError"]) blast
qed

theorem assign_ranks_terminates_witness:
  "acyclic (edges scenario) \<and> resolved scenario \<and>
   (\<exists>r. rank_pass scenario (omega_of scenario) r = Inr (r, False) \<and>
      assign_ranks (nat (count_vertices scenario)) scenario = Some (Inr (sort r))) \<and>
   nat (count_vertices scenario) = 6 \<and>
   assign_ranks 6 scenario = Some (Inr [(0, 0), (1, 1), (2, 2), (3, 2), (4, 3), (5, 4)])"
proof -
  have a: "acyclic (edges scenario)"
    by (rule acyclic_scenario)
  have b: "resolved scenario"
    by (simp add: resolved_def scenario_def id_of_def preds_of_def)
  have c: "assign_ranks 6 scenario = Some (Inr [(0, 0), (1, 1), (2, 2), (3, 2), (4, 3), (5, 4)])"
    unfolding scenario_def by code_simp
  have n: "nat (count_vertices scenario) = 6"
    by (simp add: count_vertices_def scenario_def)
  from assign_ranks_terminates [OF a] b obtain res r where
    "\<forall>fuel. nat (count_vertices scenario) \<le> fuel \<longrightarrow> assign_ranks fuel scenario = Some res"
    "res = Inr (sort r)" "rank_pass scenario (omega_of scenario) r = Inr (r, False)"
    by blast
  then have "rank_pass scenario (omega_of scenario) r = Inr (r, False) \<and>
      assign_ranks (nat (count_vertices scenario)) scenario = Some (Inr (sort r))"
    by simp
  with a b c n show ?thesis by blast
qed

end
